theory Spec2Isabelle
  imports Complex_Main "HOL-Library.Char_ord" "HOL-Library.List_Lexorder" "HOL-Library.AList"
    "HOL-Library.Signed_Division"
begin

chapter \<open>Metafora: the consumer and its balancers\<close>

text \<open>
  A shallow embedding of the task consumer of Metafora (\<^verbatim>\<open>metafora.go\<close>, stored in
  \<^verbatim>\<open>src/embedded/client.go\<close>), its fair balancer (\<^verbatim>\<open>src/balancer.go\<close>), its resource
  balancer (\<^verbatim>\<open>src/unnamed/part_004\<close>) and the task type multiplexer
  (\<^verbatim>\<open>src/unnamed/part_003\<close>).

  Go strings are byte strings compared byte by byte; \<open>string\<close> with the orders of
  \<open>Char_ord\<close> and \<open>List_Lexorder\<close> is the same order. Go's \<^verbatim>\<open>int\<close> is modelled by
  \<open>int\<close>: task counts stay far below \<open>2 ^ 63\<close>. Integer division truncates towards
  zero (\<open>sdiv\<close>).
\<close>

section \<open>Time\<close>

text \<open>
  A \<^verbatim>\<open>time.Time\<close> is an instant, counted in nanoseconds from Go's zero time (January 1,
  year 1, 00:00 UTC). \<^verbatim>\<open>IsZero\<close>, \<^verbatim>\<open>After\<close> and \<^verbatim>\<open>Add\<close> are those of package
  \<^verbatim>\<open>time\<close>; a \<^verbatim>\<open>time.Duration\<close> is a number of nanoseconds.
\<close>

type_synonym Time = int

definition IsZero :: "Time \<Rightarrow> bool" where
  "IsZero t = (t = 0)"

definition After :: "Time \<Rightarrow> Time \<Rightarrow> bool" where
  "After t u = (u < t)"

definition Second :: int where
  "Second = 1000000000"

definition Millisecond :: int where
  "Millisecond = 1000000"

definition Add :: "Time \<Rightarrow> int \<Rightarrow> Time" where
  "Add t d = t + d"

text \<open>\<^verbatim>\<open>NoDelay = time.Time{}\<close>\<close>

definition NoDelay :: Time where
  "NoDelay = 0"

text \<open>
  \<^verbatim>\<open>time.Unix(sec, nsec)\<close>, for \<open>0 \<le> nsec < 10^9\<close>, stores \<^verbatim>\<open>sec + unixToInternal\<close> in a
  signed 64-bit field, where \<^verbatim>\<open>unixToInternal\<close> is the number of seconds from year 1 to
  1970. The addition is Go's \<^verbatim>\<open>int64\<close> addition, which wraps around.
\<close>

definition wrap64 :: "int \<Rightarrow> int" where
  "wrap64 x = (x + 2 ^ 63) mod 2 ^ 64 - 2 ^ 63"

definition MaxInt64 :: int where
  "MaxInt64 = 2 ^ 63 - 1"

definition unixToInternal :: int where
  "unixToInternal = (1969 * 365 + 1969 div 4 - 1969 div 100 + 1969 div 400) * 86400"

definition Unix :: "int \<Rightarrow> int \<Rightarrow> Time" where
  "Unix sec nsec = wrap64 (sec + unixToInternal) * Second + nsec"

section \<open>Tasks\<close>

text \<open>
  \<^verbatim>\<open>Task\<close> is an interface with the methods \<^verbatim>\<open>ID()\<close> and \<^verbatim>\<open>Props()\<close>; a task is the pair
  of what they return, the property map as an association list. \<^verbatim>\<open>runningtask\<close> is the
  struct of \<^verbatim>\<open>src/unnamed/part_002\<close>: the embedded task, the handler \<open>h\<close> (named by the
  number of the \<^verbatim>\<open>HandlerFunc\<close> call that made it), and the times at which the task was
  started and first stopped. The mutex \<^verbatim>\<open>stopL\<close> makes \<^verbatim>\<open>stop()\<close> and \<^verbatim>\<open>Stopped()\<close> atomic.
\<close>

record Task =
  ID :: string
  Props :: "(string \<times> string) list"

record runningtask =
  task :: Task
  h :: nat
  started :: Time
  stopped :: Time

definition newTask :: "Task \<Rightarrow> nat \<Rightarrow> Time \<Rightarrow> runningtask" where
  "newTask t hid now = \<lparr>task = t, h = hid, started = now, stopped = 0\<rparr>"

text \<open>\<^verbatim>\<open>runningtask.stop\<close>: only the first call sets \<open>stopped\<close>.\<close>

definition rt_stop :: "Time \<Rightarrow> runningtask \<Rightarrow> runningtask" where
  "rt_stop now t = (if IsZero (stopped t) then t\<lparr>stopped := now\<rparr> else t)"



definition rt_ID :: "runningtask \<Rightarrow> string" where
  "rt_ID t = ID (task t)"

section \<open>ResourceBalancer\<close>





text \<open>A running task for the examples: its ID, start time and stop time.\<close>

definition wt :: "string \<Rightarrow> Time \<Rightarrow> Time \<Rightarrow> runningtask" where
  "wt i s e = \<lparr>task = \<lparr>ID = i, Props = []\<rparr>, h = 0, started = s, stopped = e\<rparr>"

section \<open>FairBalancer\<close>

text \<open>
  \<^verbatim>\<open>FairBalancer\<close> of \<^verbatim>\<open>src/balancer.go\<close>. \<^verbatim>\<open>releaseThreshold\<close> is a \<^verbatim>\<open>float64\<close>, a
  rational number. The double precision expression
  \<^verbatim>\<open>int(math.Ceil(float64(avg) * e.releaseThreshold))\<close> is the parameter \<open>ceilmul\<close>, applied
  to \<open>avg\<close> and the threshold. A cluster state \<^verbatim>\<open>map[string]int\<close> is an association list
  with one pair for each node.
\<close>

datatype error = Err string

record FairBalancer =
  nodeid :: string
  releaseThreshold :: rat
  delay :: Time

definition FB_CanClaim :: "Time \<Rightarrow> FairBalancer \<Rightarrow> Time \<times> bool" where
  "FB_CanClaim now e = (if After (delay e) now then (delay e, False) else (NoDelay, True))"

definition desiredCount :: "(int \<Rightarrow> rat \<Rightarrow> int) \<Rightarrow> FairBalancer \<Rightarrow> (string \<times> int) list \<Rightarrow> int" where
  "desiredCount ceilmul e current =
     (let tot = sum_list (map snd current);
          avg = (if 0 < length current then tot sdiv int (length current) else 0)
      in ceilmul avg (releaseThreshold e))"

text \<open>\<^verbatim>\<open>current[e.nodeid]\<close>: a missing key reads as 0.\<close>

definition node_count :: "(string \<times> int) list \<Rightarrow> string \<Rightarrow> int" where
  "node_count current n = (case map_of current n of None \<Rightarrow> 0 | Some k \<Rightarrow> k)"

text \<open>
  The selection loop of \<^verbatim>\<open>Balance\<close>. The list \<open>rs\<close> holds the numbers the random source
  yields, one for each turn of the loop; \<^verbatim>\<open>random.Intn(n)\<close> brings a number into
  \<open>{0..<n}\<close>. When the numbers are used up and the loop has not ended the result is
  \<open>None\<close>: the loop has not returned within that many turns. \<^verbatim>\<open>Balance\<close> enters the loop
  with at least two tasks in \<open>nodetasks\<close>.
\<close>

fun pick ::
  "runningtask list \<Rightarrow> nat \<Rightarrow> string list \<Rightarrow> string set \<Rightarrow> nat list \<Rightarrow> string list option" where
  "pick nodetasks shouldrelease releasetasks releaseset [] =
     (if length releasetasks < shouldrelease then None else Some releasetasks)"
| "pick nodetasks shouldrelease releasetasks releaseset (r # rs) =
     (if length releasetasks < shouldrelease then
        (let tid = rt_ID (nodetasks ! (r mod length nodetasks)) in
         if tid \<notin> releaseset
         then pick nodetasks shouldrelease (releasetasks @ [tid]) (insert tid releaseset) rs
         else pick nodetasks shouldrelease releasetasks releaseset rs)
      else Some releasetasks)"

text \<open>
  \<^verbatim>\<open>Balance\<close>: \<open>nodetasks\<close> is what \<^verbatim>\<open>ctx.Tasks()\<close> returns, \<open>cs\<close> what
  \<^verbatim>\<open>e.clusterstate.NodeTaskCount()\<close> returns (\<open>Inl\<close> for an error), \<open>now\<close> the time read
  after the loop. The result is the list of released task IDs and the balancer with its
  new \<open>delay\<close>.
\<close>

definition FB_Balance ::
  "(int \<Rightarrow> rat \<Rightarrow> int) \<Rightarrow> runningtask list \<Rightarrow> error + (string \<times> int) list \<Rightarrow> nat list \<Rightarrow>
   Time \<Rightarrow> FairBalancer \<Rightarrow> (string list \<times> FairBalancer) option" where
  "FB_Balance ceilmul nodetasks cs rs now e0 =
     (let e = e0\<lparr>delay := 0\<rparr> in
      if length nodetasks < 2 then Some ([], e)
      else (case cs of
              Inl err \<Rightarrow> Some ([], e)
            | Inr current \<Rightarrow>
                (let shouldrelease = node_count current (nodeid e) - desiredCount ceilmul e current in
                 if shouldrelease < 1 then Some ([], e)
                 else (case pick nodetasks (nat shouldrelease) [] {} rs of
                         None \<Rightarrow> None
                       | Some releasetasks \<Rightarrow>
                           Some (releasetasks,
                                 e\<lparr>delay := Add now (int (length releasetasks) * Second)\<rparr>)))))"

text \<open>The task IDs the numbers \<open>rs\<close> select in \<open>nodetasks\<close>.\<close>

definition drawn :: "runningtask list \<Rightarrow> nat list \<Rightarrow> string set" where
  "drawn nodetasks rs = (\<lambda>r. rt_ID (nodetasks ! (r mod length nodetasks))) ` set rs"

text \<open>The exact ceiling of the product, which the examples use for \<open>ceilmul\<close>.\<close>

definition exact_ceilmul :: "int \<Rightarrow> rat \<Rightarrow> int" where
  "exact_ceilmul avg thr = \<lceil>of_int avg * thr\<rceil>"


definition node1 :: FairBalancer where
  "node1 = \<lparr>nodeid = ''node1'', releaseThreshold = 6 / 5, delay = 7\<rparr>"


definition two :: "runningtask list" where
  "two = [wt ''a'' 1 0, wt ''b'' 2 0]"

section \<open>The task type multiplexer\<close>

text \<open>
  Package \<^verbatim>\<open>mux\<close> of \<^verbatim>\<open>src/unnamed/part_003\<close>. A \<^verbatim>\<open>metafora.Balancer\<close> held by a route
  is \<^verbatim>\<open>nil\<close> (\<open>None\<close>), the package's own \<^verbatim>\<open>rejecter\<close>, or a balancer from elsewhere, whose
  \<^verbatim>\<open>CanClaim\<close> is the parameter \<open>ext\<close>. Calling a method of a \<^verbatim>\<open>nil\<close> balancer panics: the
  result is \<open>None\<close>. The mutex \<^verbatim>\<open>mu\<close> makes each method atomic.
\<close>

definition defkey :: string where
  "defkey = ''''"

definition TypeKey :: string where
  "TypeKey = ''_type''"

definition forever :: Time where
  "forever = Unix MaxInt64 0"

datatype 'b Balancer = AlwaysReject | External 'b

definition rejecter_CanClaim :: "Task \<Rightarrow> Time \<times> bool" where
  "rejecter_CanClaim t = (forever, False)"

record ('b, 'hf) route =
  route_b :: "'b Balancer option"
  route_h :: "'hf option"

definition rejectRoute :: "('b, 'hf) route" where
  "rejectRoute = \<lparr>route_b = Some AlwaysReject, route_h = None\<rparr>"

type_synonym ('b, 'hf) mux = "string \<rightharpoonup> ('b, 'hf) route"

definition New :: "'hf option \<Rightarrow> 'b Balancer option \<Rightarrow> ('b, 'hf) mux" where
  "New defh defb = Map.empty(defkey \<mapsto> \<lparr>route_b = defb, route_h = defh\<rparr>)"

text \<open>\<^verbatim>\<open>m.routes[defkey]\<close> in \<^verbatim>\<open>Add\<close>: a missing key reads as the zero route.\<close>

definition routes_at :: "('b, 'hf) mux \<Rightarrow> string \<Rightarrow> ('b, 'hf) route" where
  "routes_at m k = (case m k of None \<Rightarrow> \<lparr>route_b = None, route_h = None\<rparr> | Some r \<Rightarrow> r)"

definition mux_Add ::
  "string \<Rightarrow> 'hf option \<Rightarrow> 'b Balancer option \<Rightarrow> ('b, 'hf) mux \<Rightarrow> ('b, 'hf) mux" where
  "mux_Add typ hf bal m =
     (let hf' = (if hf = None then route_h (routes_at m defkey) else hf);
          bal' = (if bal = None then route_b (routes_at m defkey) else bal)
      in m(typ \<mapsto> \<lparr>route_b = bal', route_h = hf'\<rparr>))"

text \<open>The multiplexer after the calls of \<^verbatim>\<open>Add\<close> listed in \<open>adds\<close>.\<close>

definition added ::
  "(string \<times> 'hf option \<times> 'b Balancer option) list \<Rightarrow> ('b, 'hf) mux \<Rightarrow> ('b, 'hf) mux" where
  "added adds m = fold (\<lambda>(ty, hf, bal). mux_Add ty hf bal) adds m"

definition mux_get :: "('b, 'hf) mux \<Rightarrow> string \<Rightarrow> ('b, 'hf) route" where
  "mux_get m typ = (case m typ of None \<Rightarrow> rejectRoute | Some r \<Rightarrow> r)"

text \<open>\<^verbatim>\<open>task.Props()[TypeKey]\<close>: a missing key reads as the empty string.\<close>

definition props_at :: "Task \<Rightarrow> string \<Rightarrow> string" where
  "props_at t k = (case map_of (Props t) k of None \<Rightarrow> '''' | Some v \<Rightarrow> v)"

fun Balancer_CanClaim ::
  "('b \<Rightarrow> Task \<Rightarrow> Time \<times> bool) \<Rightarrow> 'b Balancer option \<Rightarrow> Task \<Rightarrow> (Time \<times> bool) option" where
  "Balancer_CanClaim ext None t = None"
| "Balancer_CanClaim ext (Some AlwaysReject) t = Some (rejecter_CanClaim t)"
| "Balancer_CanClaim ext (Some (External x)) t = Some (ext x t)"

definition mux_CanClaim ::
  "('b \<Rightarrow> Task \<Rightarrow> Time \<times> bool) \<Rightarrow> ('b, 'hf) mux \<Rightarrow> Task \<Rightarrow> (Time \<times> bool) option" where
  "mux_CanClaim ext m t =
     (let r = mux_get m (props_at t TypeKey) in Balancer_CanClaim ext (route_b r) t)"

text \<open>
  Example: a multiplexer with a default balancer that accepts every task and no other
  route.
\<close>

definition okmux :: "(unit, unit) mux" where
  "okmux = New None (Some (External ()))"

section \<open>The consumer\<close>

text \<open>
  \<^verbatim>\<open>Consumer\<close> of \<^verbatim>\<open>metafora.go\<close> (in \<^verbatim>\<open>src/embedded/client.go\<close>, from line 23). The
  coordinator, the balancer, the handlers and the ignore manager are reached through
  interfaces: what their methods return is an input of the model, and every call made on
  them is recorded, with the goroutine that made it, in \<open>calls\<close>.
\<close>

datatype outcome = Returns bool | Panics

datatype caller = MainLoop | HandlerG nat | StopG

datatype call =
    BalCanClaim string
  | BalBalance
  | ImIgnore string Time
  | CoordClaim string bool
  | CoordDone string
  | CoordRelease string
  | CoordClose
  | HRun string outcome
  | HStop string

text \<open>
  The goroutine that \<^verbatim>\<open>claimed\<close> starts for a handler is at one of these places: the
  handler was made but no goroutine started (\<open>Created\<close>); inside \<^verbatim>\<open>h.Run\<close> (\<open>InRun\<close>);
  \<^verbatim>\<open>runTask\<close> has returned \<open>done\<close> (\<open>Purged done\<close>); \<^verbatim>\<open>Done\<close> or \<^verbatim>\<open>Release\<close> has been called
  (\<open>Notified\<close>); the deferred \<^verbatim>\<open>c.hwg.Done()\<close> has run (\<open>Exited\<close>).
\<close>

datatype hpc = Created | InRun | Purged bool | Notified | Exited

text \<open>
  The main loop of \<^verbatim>\<open>Run\<close> is at its \<^verbatim>\<open>select\<close> (\<open>Selecting\<close>), between
  \<^verbatim>\<open>c.coord.Claim(tid)\<close> returning true and \<^verbatim>\<open>c.claimed(task)\<close> (\<open>Claiming task\<close>), in the
  loop of \<^verbatim>\<open>stopTask\<close> calls of \<^verbatim>\<open>balance\<close> or of \<^verbatim>\<open>shutdown\<close> (\<open>Stopping ids final\<close>, with
  the task IDs still to come; \<open>final\<close> is true in \<^verbatim>\<open>shutdown\<close>), in the \<^verbatim>\<open>c.hwg.Wait()\<close> of
  \<^verbatim>\<open>shutdown\<close> (\<open>Waiting\<close>), or has returned.
\<close>

datatype mpc = Selecting | Claiming Task | Stopping "string list" bool | Waiting | Returned

text \<open>
  The fields \<open>running\<close>, \<open>stop\<close> (true once the channel is closed), \<open>freeze\<close> and \<open>hwg\<close> (the
  counter of the wait group) are those of the struct. \<open>running\<close> is an association list
  with one pair for each key of the Go map. \<open>handlers\<close> lists the handlers made by
  \<^verbatim>\<open>c.handler()\<close>, in the order of the calls, each with the task ID it was made for and
  the place of its goroutine. \<open>stopping\<close> lists the goroutines started by \<^verbatim>\<open>stopTask\<close> that
  have not yet run, each with its task ID and the handler of the \<^verbatim>\<open>runningtask\<close> it holds.
\<close>

record Consumer =
  running :: "(string \<times> runningtask) list"
  stop :: bool
  freeze :: bool
  hwg :: nat
  handlers :: "(string \<times> hpc) list"
  stopping :: "(string \<times> nat) list"
  mainloop :: mpc
  calls :: "(caller \<times> call) list"

text \<open>
  \<^verbatim>\<open>NewConsumer\<close>; \<open>init_err\<close> is what \<^verbatim>\<open>coord.Init\<close> returns. \<open>consumer0\<close> is the consumer
  it makes, before \<^verbatim>\<open>Run\<close> has taken a step.
\<close>

definition consumer0 :: Consumer where
  "consumer0 = \<lparr>running = [], stop = False, freeze = False, hwg = 0, handlers = [],
                 stopping = [], mainloop = Selecting, calls = []\<rparr>"

definition NewConsumer :: "error option \<Rightarrow> error + Consumer" where
  "NewConsumer init_err = (case init_err of Some err \<Rightarrow> Inl err | None \<Rightarrow> Inr consumer0)"

definition Frozen :: "Consumer \<Rightarrow> bool" where
  "Frozen c = freeze c"

text \<open>\<^verbatim>\<open>close\<close>, under the lock \<^verbatim>\<open>runL\<close>.\<close>

definition close :: "Consumer \<Rightarrow> Consumer" where
  "close c = (if stop c then c else c\<lparr>stop := True\<rparr>)"

text \<open>
  \<^verbatim>\<open>Tasks\<close>, under the lock \<^verbatim>\<open>runL\<close>. \<^verbatim>\<open>sort.Strings\<close> puts the keys in ascending order;
  \<^verbatim>\<open>c.running[id]\<close> is \<^verbatim>\<open>nil\<close> (\<open>None\<close>) for a missing key.
\<close>

definition Tasks :: "Consumer \<Rightarrow> runningtask option list" where
  "Tasks c = (let ids = sort (map fst (running c)) in map (\<lambda>id. map_of (running c) id) ids)"

text \<open>
  \<^verbatim>\<open>stopTask\<close>: the lookup under the lock \<^verbatim>\<open>runL\<close>, and the start of the goroutine that
  will call \<^verbatim>\<open>task.stop()\<close> on the \<^verbatim>\<open>runningtask\<close> found.
\<close>

definition stopTask :: "string \<Rightarrow> Consumer \<Rightarrow> Consumer" where
  "stopTask taskID c =
     (case map_of (running c) taskID of
        None \<Rightarrow> c
      | Some t \<Rightarrow> c\<lparr>stopping := stopping c @ [(taskID, h t)]\<rparr>)"

text \<open>
  The goroutine of \<^verbatim>\<open>stopTask\<close> runs \<^verbatim>\<open>task.stop()\<close>, under the lock \<^verbatim>\<open>stopL\<close> of the task:
  \<open>stopped\<close> is set the first time, and \<^verbatim>\<open>h.Stop()\<close> is called (a panic of \<^verbatim>\<open>h.Stop()\<close> is
  recovered and logged). The \<^verbatim>\<open>runningtask\<close> is the one with handler \<open>hid\<close>; if it has
  left \<open>running\<close> by then, no state that the consumer reads changes.
\<close>

definition stop_entry :: "nat \<Rightarrow> Time \<Rightarrow> string \<times> runningtask \<Rightarrow> string \<times> runningtask" where
  "stop_entry hid now e = (if h (snd e) = hid then (fst e, rt_stop now (snd e)) else e)"

definition run_stop :: "nat \<Rightarrow> Time \<Rightarrow> Consumer \<Rightarrow> Consumer" where
  "run_stop k now c =
     (if k < length (stopping c) then
        (let (taskID, hid) = stopping c ! k
         in c\<lparr>running := map (stop_entry hid now) (running c),
               stopping := take k (stopping c) @ drop (Suc k) (stopping c),
               calls := calls c @ [(StopG, HStop taskID)]\<rparr>)
      else c)"

text \<open>
  \<^verbatim>\<open>balance\<close>, up to its loop; \<open>tasks\<close> is what \<^verbatim>\<open>c.bal.Balance()\<close> returns. The loop calls
  \<^verbatim>\<open>stopTask\<close> for each of them, one step of the main loop at a time (\<open>stop_next\<close>).
\<close>

definition balance :: "string list \<Rightarrow> Consumer \<Rightarrow> Consumer" where
  "balance tasks c =
     c\<lparr>calls := calls c @ [(MainLoop, BalBalance)], mainloop := Stopping tasks False\<rparr>"

text \<open>
  \<^verbatim>\<open>shutdown\<close>, up to its loop: \<^verbatim>\<open>c.coord.Close()\<close> and \<^verbatim>\<open>c.Tasks()\<close>. \<^verbatim>\<open>Tasks\<close> returns no
  \<^verbatim>\<open>nil\<close> entry (lemma \<open>Tasks_Some\<close> below), so \<^verbatim>\<open>id.ID()\<close> is defined for each entry.
\<close>

definition task_ids :: "runningtask option list \<Rightarrow> string list" where
  "task_ids tasks = concat (map (\<lambda>x. case x of None \<Rightarrow> [] | Some rt \<Rightarrow> [rt_ID rt]) tasks)"

definition shutdown :: "Consumer \<Rightarrow> Consumer" where
  "shutdown c0 =
     (let c = c0\<lparr>calls := calls c0 @ [(MainLoop, CoordClose)]\<rparr>;
          tasks = Tasks c
      in c\<lparr>mainloop := Stopping (task_ids tasks) True\<rparr>)"

text \<open>
  One turn of the loop of \<^verbatim>\<open>stopTask\<close> calls. After the last one \<^verbatim>\<open>balance\<close> returns to the
  main loop, and \<^verbatim>\<open>shutdown\<close> goes on to \<^verbatim>\<open>c.hwg.Wait()\<close>.
\<close>

definition stop_next :: "Consumer \<Rightarrow> Consumer" where
  "stop_next c =
     (case mainloop c of
        Stopping [] final \<Rightarrow> c\<lparr>mainloop := (if final then Waiting else Selecting)\<rparr>
      | Stopping (t # ts) final \<Rightarrow> (stopTask t c)\<lparr>mainloop := Stopping ts final\<rparr>
      | _ \<Rightarrow> c)"

text \<open>
  \<^verbatim>\<open>claimed\<close>. The handler is made first; the rest runs under the lock \<^verbatim>\<open>runL\<close>. The new
  goroutine starts in \<^verbatim>\<open>h.Run\<close>.
\<close>

definition claimed :: "Task \<Rightarrow> Time \<Rightarrow> Consumer \<Rightarrow> Consumer" where
  "claimed t now c0 =
     (let tid = ID t;
          hid = length (handlers c0);
          c = c0\<lparr>handlers := handlers c0 @ [(tid, Created)]\<rparr>
      in if stop c then c
         else if map_of (running c) tid \<noteq> None then c
         else c\<lparr>running := AList.update tid (newTask t hid now) (running c),
                 hwg := hwg c + 1,
                 handlers := (handlers c)[hid := (tid, InRun)]\<rparr>)"

text \<open>
  \<^verbatim>\<open>runTask\<close>; \<open>run\<close> is what the call \<^verbatim>\<open>run(task)\<close> does. After a panic the deferred
  function sets \<open>done\<close>; in both cases it deletes the task from \<open>running\<close> under the lock.
\<close>

definition runTask :: "outcome \<Rightarrow> string \<Rightarrow> Consumer \<Rightarrow> bool \<times> Consumer" where
  "runTask run t c =
     (let done = (case run of Returns d \<Rightarrow> d | Panics \<Rightarrow> True)
      in (done, c\<lparr>running := AList.delete t (running c)\<rparr>))"

text \<open>
  Modelled from the spec: the command names \<^verbatim>\<open>cmdFreeze\<close>, \<^verbatim>\<open>cmdUnfreeze\<close>, \<^verbatim>\<open>cmdBalance\<close>
  and \<^verbatim>\<open>cmdStopTask\<close>, constants of a file that is not among the sources. They are the
  names \<^verbatim>\<open>freeze\<close>, \<^verbatim>\<open>unfreeze\<close>, \<^verbatim>\<open>run_balance\<close> and \<^verbatim>\<open>stop_task\<close> of the command table.
\<close>

definition cmdFreeze :: string where
  "cmdFreeze = ''freeze''"

definition cmdUnfreeze :: string where
  "cmdUnfreeze = ''unfreeze''"

definition cmdBalance :: string where
  "cmdBalance = ''run_balance''"

definition cmdStopTask :: string where
  "cmdStopTask = ''stop_task''"

text \<open>
  A \<^verbatim>\<open>Command\<close> is what its methods \<^verbatim>\<open>Name()\<close> and \<^verbatim>\<open>Parameters()\<close> return, the
  parameter map as an association list; a parameter is a string or a value of another
  type.
\<close>

datatype param = PString string | POther

record Command =
  Name :: string
  Parameters :: "(string \<times> param) list"

text \<open>\<^verbatim>\<open>handleCommand\<close>; \<open>rel\<close> is what \<^verbatim>\<open>c.bal.Balance()\<close> returns when it is called.\<close>

definition handleCommand :: "Command \<Rightarrow> string list \<Rightarrow> Consumer \<Rightarrow> Consumer" where
  "handleCommand cmd rel c =
     (if Name cmd = cmdFreeze then (if Frozen c then c else c\<lparr>freeze := True\<rparr>)
      else if Name cmd = cmdUnfreeze then (if \<not> Frozen c then c else c\<lparr>freeze := False\<rparr>)
      else if Name cmd = cmdBalance then balance rel c
      else if Name cmd = cmdStopTask then
        (case map_of (Parameters cmd) ''task'' of
           Some (PString t) \<Rightarrow> stopTask t c
         | _ \<Rightarrow> c)
      else c)"

text \<open>
  What the \<^verbatim>\<open>select\<close> of the main loop receives, with what the calls that follow return:
  for a task, the results of \<^verbatim>\<open>c.ignored(tid)\<close>, \<^verbatim>\<open>c.bal.CanClaim(task)\<close> and
  \<^verbatim>\<open>c.coord.Claim(tid)\<close>; for a balance tick and for a command, the result of
  \<^verbatim>\<open>c.bal.Balance()\<close>. \<open>RecvCmd None\<close> is the closed command channel.
\<close>

datatype event =
    RecvStop
  | RecvBalance "string list"
  | RecvTask Task bool "Time \<times> bool" bool
  | RecvCmd "Command option" "string list"

definition add_call :: "call \<Rightarrow> Consumer \<Rightarrow> Consumer" where
  "add_call x c = c\<lparr>calls := calls c @ [(MainLoop, x)]\<rparr>"

text \<open>
  The task case of the \<^verbatim>\<open>select\<close>, up to \<^verbatim>\<open>c.coord.Claim(tid)\<close>.
\<close>

definition recv_task :: "Task \<Rightarrow> bool \<Rightarrow> Time \<times> bool \<Rightarrow> bool \<Rightarrow> Consumer \<Rightarrow> Consumer" where
  "recv_task t ign can cl c =
     (let tid = ID t in
      if ign then c
      else (let c1 = add_call (BalCanClaim tid) c in
            if \<not> snd can then add_call (ImIgnore tid (fst can)) c1
            else (let c2 = add_call (CoordClaim tid cl) c1 in
                  if \<not> cl then c2
                  else c2\<lparr>mainloop := Claiming t\<rparr>)))"

text \<open>
  One turn of the main loop of \<^verbatim>\<open>Run\<close>. While frozen the \<^verbatim>\<open>select\<close> has only the cases
  of \<^verbatim>\<open>c.stop\<close> and of the command channel: another event is not received and the state
  stays as it is. \<^verbatim>\<open>c.stop\<close> yields only once it is closed. Every \<^verbatim>\<open>return\<close> runs the
  deferred \<^verbatim>\<open>shutdown\<close>.
\<close>

definition run_select :: "event \<Rightarrow> Consumer \<Rightarrow> Consumer" where
  "run_select ev c =
     (if Frozen c then
        (case ev of
           RecvStop \<Rightarrow> if stop c then shutdown c else c
         | RecvCmd None rel \<Rightarrow> shutdown c
         | RecvCmd (Some cmd) rel \<Rightarrow> handleCommand cmd rel c
         | _ \<Rightarrow> c)
      else
        (case ev of
           RecvStop \<Rightarrow> if stop c then shutdown c else c
         | RecvBalance rel \<Rightarrow> balance rel c
         | RecvTask t ign can cl \<Rightarrow> recv_task t ign can cl c
         | RecvCmd None rel \<Rightarrow> shutdown c
         | RecvCmd (Some cmd) rel \<Rightarrow> handleCommand cmd rel c))"

text \<open>
  The steps of the goroutines, each of them what one goroutine does under a lock or
  between two accesses of the shared state. \<open>DoClose\<close> is a call of \<^verbatim>\<open>close\<close> (by
  \<^verbatim>\<open>Shutdown\<close> or by the watcher). The main loop receives from its \<^verbatim>\<open>select\<close>
  (\<open>MainSelect\<close>), makes one turn of a loop of \<^verbatim>\<open>stopTask\<close> calls (\<open>MainStopTask\<close>), calls
  \<^verbatim>\<open>claimed\<close> at the time given (\<open>MainClaimed\<close>), and returns from \<^verbatim>\<open>c.hwg.Wait()\<close>
  (\<open>MainWaitDone\<close>). \<open>StopRun k now\<close> is the run of the \<open>k\<close>-th waiting goroutine of
  \<^verbatim>\<open>stopTask\<close> at time \<open>now\<close>. The goroutine of handler \<open>i\<close> returns from \<^verbatim>\<open>runTask\<close>
  (\<open>HandlerReturn\<close>, with what \<^verbatim>\<open>h.Run\<close> did), calls \<^verbatim>\<open>Done\<close> or \<^verbatim>\<open>Release\<close>
  (\<open>HandlerNotify\<close>) and runs its deferred \<^verbatim>\<open>c.hwg.Done()\<close> (\<open>HandlerExit\<close>). A step that is
  not possible in a state leaves the state as it is.
\<close>

datatype action =
    DoClose
  | MainSelect event
  | MainStopTask
  | MainClaimed Time
  | MainWaitDone
  | StopRun nat Time
  | HandlerReturn nat outcome
  | HandlerNotify nat
  | HandlerExit nat

definition handler_at :: "Consumer \<Rightarrow> nat \<Rightarrow> (string \<times> hpc) option" where
  "handler_at c i = (if i < length (handlers c) then Some (handlers c ! i) else None)"

definition set_hpc :: "nat \<Rightarrow> string \<Rightarrow> hpc \<Rightarrow> Consumer \<Rightarrow> Consumer" where
  "set_hpc i tid pc c = c\<lparr>handlers := (handlers c)[i := (tid, pc)]\<rparr>"

definition notify_call :: "string \<Rightarrow> bool \<Rightarrow> call" where
  "notify_call tid done = (if done then CoordDone tid else CoordRelease tid)"

fun step :: "action \<Rightarrow> Consumer \<Rightarrow> Consumer" where
  "step DoClose c = close c"
| "step (MainSelect ev) c = (if mainloop c = Selecting then run_select ev c else c)"
| "step MainStopTask c = stop_next c"
| "step (MainClaimed now) c =
     (case mainloop c of
        Claiming t \<Rightarrow> (claimed t now c)\<lparr>mainloop := Selecting\<rparr>
      | _ \<Rightarrow> c)"
| "step MainWaitDone c =
     (if mainloop c = Waiting \<and> hwg c = 0 then c\<lparr>mainloop := Returned\<rparr> else c)"
| "step (StopRun k now) c = run_stop k now c"
| "step (HandlerReturn i out) c =
     (case handler_at c i of
        Some (tid, InRun) \<Rightarrow>
          (let (done, c1) = runTask out tid (c\<lparr>calls := calls c @ [(HandlerG i, HRun tid out)]\<rparr>)
           in set_hpc i tid (Purged done) c1)
      | _ \<Rightarrow> c)"
| "step (HandlerNotify i) c =
     (case handler_at c i of
        Some (tid, Purged done) \<Rightarrow>
          set_hpc i tid Notified (c\<lparr>calls := calls c @ [(HandlerG i, notify_call tid done)]\<rparr>)
      | _ \<Rightarrow> c)"
| "step (HandlerExit i) c =
     (case handler_at c i of
        Some (tid, Notified) \<Rightarrow> set_hpc i tid Exited (c\<lparr>hwg := hwg c - 1\<rparr>)
      | _ \<Rightarrow> c)"

text \<open>A run of the consumer: the steps \<open>as\<close>, taken in order.\<close>

definition exec :: "action list \<Rightarrow> Consumer \<Rightarrow> Consumer" where
  "exec as c = fold step as c"

text \<open>The calls goroutine \<open>i\<close> has made, and those of them on the coordinator.\<close>

definition hcalls :: "nat \<Rightarrow> Consumer \<Rightarrow> call list" where
  "hcalls i c = map snd (filter (\<lambda>x. fst x = HandlerG i) (calls c))"

fun is_done_release :: "call \<Rightarrow> bool" where
  "is_done_release (CoordDone t) = True"
| "is_done_release (CoordRelease t) = True"
| "is_done_release x = False"

text \<open>The task IDs in \<open>running\<close>.\<close>

definition running_ids :: "Consumer \<Rightarrow> string set" where
  "running_ids c = fst ` set (running c)"

section \<open>Invariants of the consumer\<close>

text \<open>Two states of one running task: only \<open>stopped\<close> may differ.\<close>

definition same_rt :: "runningtask \<Rightarrow> runningtask \<Rightarrow> bool" where
  "same_rt a b \<longleftrightarrow> task a = task b \<and> h a = h b \<and> started a = started b"

text \<open>
  A call made by the main loop or by a goroutine of \<^verbatim>\<open>stopTask\<close>, other than \<^verbatim>\<open>Done\<close> and
  \<^verbatim>\<open>Release\<close>.
\<close>

definition other_call :: "caller \<times> call \<Rightarrow> bool" where
  "other_call x \<longleftrightarrow> (fst x = MainLoop \<or> fst x = StopG) \<and> \<not> is_done_release (snd x)"

text \<open>
  A step from \<open>c\<close> to \<open>c'\<close> that starts and ends no handler goroutine: it keeps the
  handlers, the wait group, the stop signal and the keys of \<open>running\<close>, changes at most the
  \<open>stopped\<close> time of a running task, and adds only calls of the main loop and of the
  goroutines of \<^verbatim>\<open>stopTask\<close>, none of them \<^verbatim>\<open>Done\<close> or \<^verbatim>\<open>Release\<close>.
\<close>

definition quiet :: "Consumer \<Rightarrow> Consumer \<Rightarrow> bool" where
  "quiet c c' \<longleftrightarrow>
     handlers c' = handlers c \<and> hwg c' = hwg c \<and> stop c' = stop c \<and>
     map fst (running c') = map fst (running c) \<and>
     (\<forall>k. rel_option same_rt (map_of (running c) k) (map_of (running c') k)) \<and>
     (\<exists>new. calls c' = calls c @ new \<and> (\<forall>x\<in>set new. other_call x))"

text \<open>The value \<^verbatim>\<open>runTask\<close> returns for what \<^verbatim>\<open>h.Run\<close> did.\<close>

definition done_of :: "outcome \<Rightarrow> bool" where
  "done_of out = (case out of Returns d \<Rightarrow> d | Panics \<Rightarrow> True)"

text \<open>The calls a handler goroutine has made, by the place it has reached.\<close>

fun hcalls_ok :: "string \<Rightarrow> hpc \<Rightarrow> call list \<Rightarrow> bool" where
  "hcalls_ok tid Created cs = (cs = [])"
| "hcalls_ok tid InRun cs = (cs = [])"
| "hcalls_ok tid (Purged d) cs = (\<exists>out. cs = [HRun tid out] \<and> d = done_of out)"
| "hcalls_ok tid Notified cs = (\<exists>out. cs = [HRun tid out, notify_call tid (done_of out)])"
| "hcalls_ok tid Exited cs = (\<exists>out. cs = [HRun tid out, notify_call tid (done_of out)])"

text \<open>
  \<open>running\<close> has one entry for each key, the entry of key \<open>k\<close> holds a task with ID \<open>k\<close>
  and a handler whose goroutine is inside \<^verbatim>\<open>h.Run\<close>, and every goroutine inside \<^verbatim>\<open>h.Run\<close>
  has its entry.
\<close>

definition coherent :: "Consumer \<Rightarrow> bool" where
  "coherent c \<longleftrightarrow>
     distinct (map fst (running c)) \<and>
     (\<forall>k rt. map_of (running c) k = Some rt \<longrightarrow>
        ID (task rt) = k \<and> handler_at c (h rt) = Some (k, InRun)) \<and>
     (\<forall>i k. handler_at c i = Some (k, InRun) \<longrightarrow>
        (\<exists>rt. map_of (running c) k = Some rt \<and> h rt = i))"

text \<open>
  Every handler goroutine has made the calls of the place it has reached, and \<^verbatim>\<open>Done\<close> and
  \<^verbatim>\<open>Release\<close> are called by handler goroutines only.
\<close>

definition traced :: "Consumer \<Rightarrow> bool" where
  "traced c \<longleftrightarrow>
     (\<forall>i. handler_at c i = None \<longrightarrow> hcalls i c = []) \<and>
     (\<forall>i tid pc. handler_at c i = Some (tid, pc) \<longrightarrow> hcalls_ok tid pc (hcalls i c)) \<and>
     (\<forall>x\<in>set (calls c). is_done_release (snd x) \<longrightarrow> (\<exists>i. fst x = HandlerG i))"

text \<open>
  The handler goroutines that have started and not yet run their deferred
  \<^verbatim>\<open>c.hwg.Done()\<close>, and their number. The wait group counts them, and \<^verbatim>\<open>Run\<close> returns only
  when there is none.
\<close>

fun started_goroutine :: "hpc \<Rightarrow> bool" where
  "started_goroutine Created = False"
| "started_goroutine InRun = True"
| "started_goroutine (Purged d) = True"
| "started_goroutine Notified = True"
| "started_goroutine Exited = False"

definition live :: "Consumer \<Rightarrow> nat" where
  "live c = length (filter (\<lambda>x. started_goroutine (snd x)) (handlers c))"


text \<open>
  The task IDs for which \<^verbatim>\<open>c.coord.Claim\<close> has returned true, in the order of the calls; the
  one of them for which \<^verbatim>\<open>claimed\<close> is still to be called; and the invariant that pairs the
  handlers, in the order in which they were made, with the successful claims.
\<close>

fun claim_id :: "caller \<times> call \<Rightarrow> string list" where
  "claim_id (who, CoordClaim t ok) = (if ok then [t] else [])"
| "claim_id (who, x) = []"

definition claimed_ids :: "Consumer \<Rightarrow> string list" where
  "claimed_ids c = concat (map claim_id (calls c))"

definition pending :: "Consumer \<Rightarrow> string list" where
  "pending c = (case mainloop c of Claiming t \<Rightarrow> [ID t] | _ \<Rightarrow> [])"


section \<open>Example runs of the consumer\<close>

text \<open>
  A task with no properties; the main loop receiving a task that is not ignored, that the
  balancer accepts and that the coordinator lets the consumer claim; a run that admits
  three tasks.
\<close>

definition tk :: "string \<Rightarrow> Task" where
  "tk i = \<lparr>ID = i, Props = []\<rparr>"

definition accept :: "string \<Rightarrow> event" where
  "accept i = RecvTask (tk i) False (NoDelay, True) True"

definition three_running :: "action list" where
  "three_running = [MainSelect (accept ''t2''), MainClaimed 1, MainSelect (accept ''t10''),
     MainClaimed 2, MainSelect (accept ''a''), MainClaimed 3]"

text \<open>
  A run after which \<^verbatim>\<open>stop\<close> is closed while task \<^verbatim>\<open>a\<close> runs and the main loop has claimed
  task \<^verbatim>\<open>b\<close> but not yet called \<^verbatim>\<open>claimed\<close>.
\<close>

definition closing :: Consumer where
  "closing =
     exec [MainSelect (accept ''a''), MainClaimed 1, MainSelect (accept ''b''), DoClose] consumer0"

text \<open>
  Runs in which task \<^verbatim>\<open>a\<close> is admitted and its handler returns false, returns true, or
  panics.
\<close>

definition run_release :: "action list" where
  "run_release = [MainSelect (accept ''a''), MainClaimed 1, HandlerReturn 0 (Returns False),
     HandlerNotify 0, HandlerExit 0]"

definition run_done :: "action list" where
  "run_done = [MainSelect (accept ''a''), MainClaimed 1, HandlerReturn 0 (Returns True),
     HandlerNotify 0]"



text \<open>
  The calls by which the main loop claims a task: \<^verbatim>\<open>c.bal.CanClaim\<close> and
  \<^verbatim>\<open>c.coord.Claim\<close>.
\<close>

fun is_claiming :: "call \<Rightarrow> bool" where
  "is_claiming (BalCanClaim t) = True"
| "is_claiming (CoordClaim t b) = True"
| "is_claiming x = False"

text \<open>The step from \<open>c\<close> to \<open>c'\<close> adds calls that all satisfy \<open>P\<close>.\<close>

definition calls_ext :: "(caller \<times> call \<Rightarrow> bool) \<Rightarrow> Consumer \<Rightarrow> Consumer \<Rightarrow> bool" where
  "calls_ext P c c' \<longleftrightarrow> (\<exists>new. calls c' = calls c @ new \<and> (\<forall>x\<in>set new. P x))"

text \<open>A call of \<^verbatim>\<open>h.Stop()\<close> by a goroutine of \<^verbatim>\<open>stopTask\<close>.\<close>

definition is_hstop :: "caller \<times> call \<Rightarrow> bool" where
  "is_hstop x \<longleftrightarrow> (\<exists>t. x = (StopG, HStop t))"

text \<open>While frozen the main loop is not between \<^verbatim>\<open>Claim\<close> and \<^verbatim>\<open>claimed\<close>.\<close>

definition frozen_ok :: "Consumer \<Rightarrow> bool" where
  "frozen_ok c \<longleftrightarrow> (freeze c \<longrightarrow> (\<forall>t. mainloop c \<noteq> Claiming t))"

text \<open>The step is the main loop receiving a command named \<^verbatim>\<open>cmdBalance\<close>.\<close>

definition balance_command :: "action \<Rightarrow> bool" where
  "balance_command a \<longleftrightarrow>
     (\<exists>cmd rel. a = MainSelect (RecvCmd (Some cmd) rel) \<and> Name cmd = cmdBalance)"

text \<open>
  What a step taken while frozen may call: nothing that claims a task, and
  \<^verbatim>\<open>c.bal.Balance()\<close> only for a balance command.
\<close>

definition frozen_call :: "action \<Rightarrow> caller \<times> call \<Rightarrow> bool" where
  "frozen_call a x \<longleftrightarrow> \<not> is_claiming (snd x) \<and> (snd x = BalBalance \<longrightarrow> balance_command a)"

text \<open>
  The commands \<^verbatim>\<open>freeze\<close> and \<^verbatim>\<open>run_balance\<close>; the steps of a balance command for which
  the balancer returns task \<^verbatim>\<open>a\<close>; a run that admits two tasks and then freezes.
\<close>

definition freeze_cmd :: Command where
  "freeze_cmd = \<lparr>Name = cmdFreeze, Parameters = []\<rparr>"

definition balance_cmd :: Command where
  "balance_cmd = \<lparr>Name = cmdBalance, Parameters = []\<rparr>"

definition balance_frozen :: "action list" where
  "balance_frozen = [MainSelect (RecvCmd (Some balance_cmd) [''a'']), MainStopTask, StopRun 0 3,
     MainStopTask]"

definition run_frozen :: "action list" where
  "run_frozen = [MainSelect (accept ''a''), MainClaimed 1, MainSelect (accept ''b''), MainClaimed 2,
     MainSelect (RecvCmd (Some freeze_cmd) [])]"

section \<open>Proofs: ResourceBalancer\<close>










section \<open>Proofs: FairBalancer\<close>

lemma drawn_Cons:
  "drawn nt (r # rs) = insert (rt_ID (nt ! (r mod length nt))) (drawn nt rs)"
  by (simp add: drawn_def)

lemma drawn_subset_IDs:
  assumes "nt \<noteq> []"
  shows "drawn nt rs \<subseteq> rt_ID ` set nt"
proof
  fix x assume "x \<in> drawn nt rs"
  then obtain r where "x = rt_ID (nt ! (r mod length nt))" by (auto simp: drawn_def)
  moreover have "r mod length nt < length nt" using assms by simp
  ultimately show "x \<in> rt_ID ` set nt" by simp
qed

lemma drawn_upt:
  "drawn nt [0..<length nt] = rt_ID ` set nt"
proof -
  have "(\<lambda>r. rt_ID (nt ! (r mod length nt))) ` {0..<length nt} = (\<lambda>r. rt_ID (nt ! r)) ` {0..<length nt}"
    by (rule image_cong) auto
  also have "\<dots> = rt_ID ` ((\<lambda>r. nt ! r) ` {0..<length nt})" by (simp add: image_image)
  also have "(\<lambda>r. nt ! r) ` {0..<length nt} = set nt"
    by (metis list.set_map map_nth set_upt)
  finally show ?thesis by (simp add: drawn_def)
qed

lemma pick_result:
  "pick nt n rel rset rs = Some out \<Longrightarrow> rset = set rel \<Longrightarrow> distinct rel \<Longrightarrow> length rel \<le> n \<Longrightarrow>
   distinct out \<and> length out = n \<and> set out \<subseteq> set rel \<union> drawn nt rs"
proof (induction rs arbitrary: rel rset)
  case Nil
  then show ?case by (auto split: if_splits)
next
  case (Cons r rs)
  let ?tid = "rt_ID (nt ! (r mod length nt))"
  show ?case
  proof (cases "length rel < n")
    case False
    with Cons.prems show ?thesis by auto
  next
    case lt: True
    show ?thesis
    proof (cases "?tid \<in> rset")
      case True
      with lt Cons.prems(1) have run: "pick nt n rel rset rs = Some out" by (simp add: Let_def)
      from Cons.IH[OF run Cons.prems(2,3,4)] show ?thesis by (auto simp: drawn_Cons)
    next
      case False
      with lt Cons.prems(1) have run: "pick nt n (rel @ [?tid]) (insert ?tid rset) rs = Some out"
        by (simp add: Let_def)
      have a: "insert ?tid rset = set (rel @ [?tid])" using Cons.prems(2) by simp
      have b: "distinct (rel @ [?tid])" using Cons.prems(2,3) False by simp
      have c: "length (rel @ [?tid]) \<le> n" using lt by simp
      from Cons.IH[OF run a b c] show ?thesis by (auto simp: drawn_Cons)
    qed
  qed
qed

lemma pick_returns:
  "rset = set rel \<Longrightarrow> distinct rel \<Longrightarrow> n \<le> card (set rel \<union> drawn nt rs) \<Longrightarrow>
   pick nt n rel rset rs \<noteq> None"
proof (induction rs arbitrary: rel rset)
  case Nil
  then have "n \<le> length rel" by (simp add: drawn_def distinct_card)
  then show ?case by simp
next
  case (Cons r rs)
  let ?tid = "rt_ID (nt ! (r mod length nt))"
  show ?case
  proof (cases "length rel < n")
    case False
    then show ?thesis by simp
  next
    case lt: True
    show ?thesis
    proof (cases "?tid \<in> rset")
      case True
      then have "set rel \<union> drawn nt (r # rs) = set rel \<union> drawn nt rs"
        using Cons.prems(1) by (auto simp: drawn_Cons)
      with Cons.prems(3) have "n \<le> card (set rel \<union> drawn nt rs)" by simp
      from Cons.IH[OF Cons.prems(1,2) this] show ?thesis using lt True by (simp add: Let_def)
    next
      case False
      have a: "insert ?tid rset = set (rel @ [?tid])" using Cons.prems(1) by simp
      have b: "distinct (rel @ [?tid])" using Cons.prems(1,2) False by simp
      have "set rel \<union> drawn nt (r # rs) = set (rel @ [?tid]) \<union> drawn nt rs"
        by (auto simp: drawn_Cons)
      with Cons.prems(3) have c: "n \<le> card (set (rel @ [?tid]) \<union> drawn nt rs)" by simp
      from Cons.IH[OF a b c] show ?thesis using lt False by (simp add: Let_def)
    qed
  qed
qed

lemma pick_start_result:
  assumes "pick nt n [] {} rs = Some out" and "nt \<noteq> []"
  shows "distinct out \<and> length out = n \<and> set out \<subseteq> rt_ID ` set nt"
proof -
  from pick_result[OF assms(1)] have "distinct out \<and> length out = n \<and> set out \<subseteq> drawn nt rs"
    by simp
  with drawn_subset_IDs[OF assms(2)] show ?thesis by blast
qed

lemma pick_never:
  assumes "card (rt_ID ` set nt) < n" and "nt \<noteq> []"
  shows "pick nt n [] {} rs = None"
proof (rule ccontr)
  assume "pick nt n [] {} rs \<noteq> None"
  then obtain out where o: "pick nt n [] {} rs = Some out" by blast
  from pick_start_result[OF o assms(2)]
  have d: "distinct out" and l: "length out = n" and s: "set out \<subseteq> rt_ID ` set nt" by simp_all
  have "card (set out) \<le> card (rt_ID ` set nt)" by (rule card_mono[OF _ s]) simp
  with d l assms(1) show False by (simp add: distinct_card)
qed

lemma desiredCount_delay [simp]:
  "desiredCount ceilmul (e\<lparr>delay := d\<rparr>) current = desiredCount ceilmul e current"
  by (simp add: desiredCount_def)

lemma FB_Balance_few:
  "length nodetasks < 2 \<Longrightarrow> FB_Balance ceilmul nodetasks cs rs now e = Some ([], e\<lparr>delay := 0\<rparr>)"
  by (simp add: FB_Balance_def Let_def)

lemma FB_Balance_error:
  "FB_Balance ceilmul nodetasks (Inl err) rs now e = Some ([], e\<lparr>delay := 0\<rparr>)"
  by (simp add: FB_Balance_def Let_def)

lemma FB_Balance_none:
  "node_count current (nodeid e) \<le> desiredCount ceilmul e current \<Longrightarrow>
   FB_Balance ceilmul nodetasks (Inr current) rs now e = Some ([], e\<lparr>delay := 0\<rparr>)"
  by (simp add: FB_Balance_def Let_def)

lemma FB_Balance_loop:
  "2 \<le> length nodetasks \<Longrightarrow> desiredCount ceilmul e current < node_count current (nodeid e) \<Longrightarrow>
   FB_Balance ceilmul nodetasks (Inr current) rs now e =
     (case pick nodetasks (nat (node_count current (nodeid e) - desiredCount ceilmul e current)) [] {} rs of
        None \<Rightarrow> None
      | Some releasetasks \<Rightarrow>
          Some (releasetasks, e\<lparr>delay := Add now (int (length releasetasks) * Second)\<rparr>))"
  by (simp add: FB_Balance_def Let_def split: option.splits)


lemma FB_Balance_returns_iff:
  assumes "2 \<le> length nodetasks"
    and "desiredCount ceilmul e current < node_count current (nodeid e)"
  shows "FB_Balance ceilmul nodetasks (Inr current) rs now e \<noteq> None \<longleftrightarrow>
         nat (node_count current (nodeid e) - desiredCount ceilmul e current) \<le> card (drawn nodetasks rs)"
proof
  let ?n = "nat (node_count current (nodeid e) - desiredCount ceilmul e current)"
  assume "FB_Balance ceilmul nodetasks (Inr current) rs now e \<noteq> None"
  then obtain out where o: "pick nodetasks ?n [] {} rs = Some out"
    using FB_Balance_loop[OF assms] by (auto split: option.splits)
  from pick_result[OF o] have d: "distinct out" and l: "length out = ?n"
    and s: "set out \<subseteq> drawn nodetasks rs" by simp_all
  have "card (set out) \<le> card (drawn nodetasks rs)"
    by (rule card_mono[OF _ s]) (simp add: drawn_def)
  with d l show "?n \<le> card (drawn nodetasks rs)" by (simp add: distinct_card)
next
  let ?n = "nat (node_count current (nodeid e) - desiredCount ceilmul e current)"
  assume "?n \<le> card (drawn nodetasks rs)"
  then have "pick nodetasks ?n [] {} rs \<noteq> None" by (intro pick_returns) simp_all
  then show "FB_Balance ceilmul nodetasks (Inr current) rs now e \<noteq> None"
    using FB_Balance_loop[OF assms] by (auto split: option.splits)
qed

lemma FB_Balance_result:
  assumes "2 \<le> length nodetasks"
    and "desiredCount ceilmul e current < node_count current (nodeid e)"
    and "FB_Balance ceilmul nodetasks (Inr current) rs now e = Some (r, e')"
  shows "distinct r \<and> int (length r) = node_count current (nodeid e) - desiredCount ceilmul e current \<and>
         set r \<subseteq> drawn nodetasks rs \<and> set r \<subseteq> rt_ID ` set nodetasks \<and>
         e' = e\<lparr>delay := Add now (int (length r) * Second)\<rparr>"
proof -
  let ?n = "nat (node_count current (nodeid e) - desiredCount ceilmul e current)"
  from assms(3) have o: "pick nodetasks ?n [] {} rs = Some r"
    and e': "e' = e\<lparr>delay := Add now (int (length r) * Second)\<rparr>"
    using FB_Balance_loop[OF assms(1,2)] by (auto split: option.splits)
  from pick_result[OF o] have d: "distinct r" and l: "length r = ?n"
    and s: "set r \<subseteq> drawn nodetasks rs" by simp_all
  have ne: "nodetasks \<noteq> []" using assms(1) by auto
  from s drawn_subset_IDs[OF ne] have "set r \<subseteq> rt_ID ` set nodetasks" by blast
  with d l s e' assms(2) show ?thesis by simp
qed

lemma FB_Balance_never:
  assumes "2 \<le> length nodetasks"
    and "int (card (rt_ID ` set nodetasks)) < node_count current (nodeid e) - desiredCount ceilmul e current"
  shows "FB_Balance ceilmul nodetasks (Inr current) rs now e = None"
proof -
  have ne: "nodetasks \<noteq> []" using assms(1) by auto
  have lt: "desiredCount ceilmul e current < node_count current (nodeid e)" using assms(2) by linarith
  have "card (rt_ID ` set nodetasks) < nat (node_count current (nodeid e) - desiredCount ceilmul e current)"
    using assms(2) by linarith
  from pick_never[OF this ne] show ?thesis using FB_Balance_loop[OF assms(1) lt] by simp
qed

lemma exact_ceilmul_3 [simp]: "exact_ceilmul 3 (6 / 5) = 4"
  unfolding exact_ceilmul_def by code_simp

lemma exact_ceilmul_5 [simp]: "exact_ceilmul 5 (6 / 5) = 6"
  unfolding exact_ceilmul_def by code_simp





lemma two_IDs: "rt_ID ` set two = {''a'', ''b''}"
  by (simp add: two_def wt_def rt_ID_def)

lemma node1_held_10: "node_count [(''node1'', 10), (''node2'', 0)] (nodeid node1) = 10"
  by (simp add: node_count_def node1_def)

lemma node1_desired_6: "desiredCount exact_ceilmul node1 [(''node1'', 10), (''node2'', 0)] = 6"
  by (simp add: desiredCount_def node1_def signed_divide_int_def)


text \<open>
  Claim C10. Let \<open>shouldrelease\<close> be the task count the cluster state reports for this node
  minus the desired count. If \<open>shouldrelease\<close> is at most the number of distinct task IDs
  in the local list, then draws that reach \<open>shouldrelease\<close> distinct IDs exist (each index
  once will do) and \<^verbatim>\<open>Balance\<close> returns for every sequence of draws that reaches that many
  distinct IDs. If the loop is entered with \<open>shouldrelease\<close> greater than that number,
  \<^verbatim>\<open>Balance\<close> returns for no sequence of draws. Whenever the loop returns it has
  accumulated exactly \<open>shouldrelease\<close> distinct IDs. A cluster state error returns at once.
\<close>

theorem FB_Balance_terminates:
  assumes "shouldrelease = node_count current (nodeid e) - desiredCount ceilmul e current"
  shows "(shouldrelease \<le> int (card (rt_ID ` set nodetasks)) \<longrightarrow>
            nat shouldrelease \<le> card (drawn nodetasks [0..<length nodetasks]) \<and>
            (\<forall>rs. nat shouldrelease \<le> card (drawn nodetasks rs) \<longrightarrow>
                  FB_Balance ceilmul nodetasks (Inr current) rs now e \<noteq> None)) \<and>
         (2 \<le> length nodetasks \<and> int (card (rt_ID ` set nodetasks)) < shouldrelease \<longrightarrow>
            (\<forall>rs. FB_Balance ceilmul nodetasks (Inr current) rs now e = None)) \<and>
         (\<forall>rs r e'. 2 \<le> length nodetasks \<and> 1 \<le> shouldrelease \<and>
              FB_Balance ceilmul nodetasks (Inr current) rs now e = Some (r, e') \<longrightarrow>
              distinct r \<and> int (length r) = shouldrelease \<and> set r \<subseteq> drawn nodetasks rs) \<and>
         (\<forall>rs err. FB_Balance ceilmul nodetasks (Inl err) rs now e \<noteq> None)"
proof -
  have 1: "shouldrelease \<le> int (card (rt_ID ` set nodetasks)) \<longrightarrow>
            nat shouldrelease \<le> card (drawn nodetasks [0..<length nodetasks]) \<and>
            (\<forall>rs. nat shouldrelease \<le> card (drawn nodetasks rs) \<longrightarrow>
                  FB_Balance ceilmul nodetasks (Inr current) rs now e \<noteq> None)"
  proof (intro impI conjI allI)
    assume "shouldrelease \<le> int (card (rt_ID ` set nodetasks))"
    then show "nat shouldrelease \<le> card (drawn nodetasks [0..<length nodetasks])"
      unfolding drawn_upt by linarith
  next
    fix rs
    assume en: "nat shouldrelease \<le> card (drawn nodetasks rs)"
    show "FB_Balance ceilmul nodetasks (Inr current) rs now e \<noteq> None"
    proof (cases "2 \<le> length nodetasks \<and> 1 \<le> shouldrelease")
      case True
      then have len: "2 \<le> length nodetasks"
        and lt: "desiredCount ceilmul e current < node_count current (nodeid e)"
        using assms by simp_all
      from FB_Balance_returns_iff[OF len lt, of rs now] en assms show ?thesis by simp
    next
      case False
      then have "length nodetasks < 2 \<or> node_count current (nodeid e) \<le> desiredCount ceilmul e current"
        using assms by linarith
      then show ?thesis
        using FB_Balance_few[of nodetasks ceilmul "Inr current" rs now e]
          FB_Balance_none[of current e ceilmul nodetasks rs now] by auto
    qed
  qed
  have 2: "2 \<le> length nodetasks \<and> int (card (rt_ID ` set nodetasks)) < shouldrelease \<longrightarrow>
            (\<forall>rs. FB_Balance ceilmul nodetasks (Inr current) rs now e = None)"
    using FB_Balance_never[of nodetasks current e ceilmul] assms by simp
  have 3: "\<forall>rs r e'. 2 \<le> length nodetasks \<and> 1 \<le> shouldrelease \<and>
              FB_Balance ceilmul nodetasks (Inr current) rs now e = Some (r, e') \<longrightarrow>
              distinct r \<and> int (length r) = shouldrelease \<and> set r \<subseteq> drawn nodetasks rs"
  proof (intro allI impI)
    fix rs r e'
    assume a: "2 \<le> length nodetasks \<and> 1 \<le> shouldrelease \<and>
              FB_Balance ceilmul nodetasks (Inr current) rs now e = Some (r, e')"
    then have len: "2 \<le> length nodetasks"
      and lt: "desiredCount ceilmul e current < node_count current (nodeid e)"
      and res: "FB_Balance ceilmul nodetasks (Inr current) rs now e = Some (r, e')"
      using assms by simp_all
    from FB_Balance_result[OF len lt res] assms
    show "distinct r \<and> int (length r) = shouldrelease \<and> set r \<subseteq> drawn nodetasks rs" by simp
  qed
  have 4: "\<forall>rs err. FB_Balance ceilmul nodetasks (Inl err) rs now e \<noteq> None"
    by (simp add: FB_Balance_error)
  from 1 2 3 4 show ?thesis by blast
qed

lemma two_drawn: "drawn two [0, 0, 1] = {''a'', ''b''}"
  by (simp add: drawn_def two_def wt_def rt_ID_def)

lemma node1_held_4: "node_count [(''node1'', 4), (''node2'', 0)] (nodeid node1) = 4"
  by (simp add: node_count_def node1_def)

lemma exact_ceilmul_2 [simp]: "exact_ceilmul 2 (6 / 5) = 3"
  unfolding exact_ceilmul_def by code_simp

lemma node1_desired_3: "desiredCount exact_ceilmul node1 [(''node1'', 4), (''node2'', 0)] = 3"
  by (simp add: desiredCount_def node1_def signed_divide_int_def)

theorem FB_Balance_terminates_witness:
  "(1::int) = node_count [(''node1'', 4), (''node2'', 0)] (nodeid node1) -
       desiredCount exact_ceilmul node1 [(''node1'', 4), (''node2'', 0)] \<and>
   (1::int) \<le> int (card (rt_ID ` set two)) \<and>
   nat 1 \<le> card (drawn two [0, 0, 1]) \<and>
   FB_Balance exact_ceilmul two (Inr [(''node1'', 4), (''node2'', 0)]) [0, 0, 1] 1000 node1 =
     Some ([''a''], node1\<lparr>delay := 1000 + Second\<rparr>) \<and>
   (4::int) = node_count [(''node1'', 10), (''node2'', 0)] (nodeid node1) -
       desiredCount exact_ceilmul node1 [(''node1'', 10), (''node2'', 0)] \<and>
   int (card (rt_ID ` set two)) < 4 \<and>
   FB_Balance exact_ceilmul two (Inr [(''node1'', 10), (''node2'', 0)]) [0, 1, 1, 0, 1] 1000 node1 = None"
proof -
  have h1: "(1::int) = node_count [(''node1'', 4), (''node2'', 0)] (nodeid node1) -
       desiredCount exact_ceilmul node1 [(''node1'', 4), (''node2'', 0)]"
    by (simp add: node1_held_4 node1_desired_3)
  have h4: "(4::int) = node_count [(''node1'', 10), (''node2'', 0)] (nodeid node1) -
       desiredCount exact_ceilmul node1 [(''node1'', 10), (''node2'', 0)]"
    by (simp add: node1_held_10 node1_desired_6)
  have c1: "(1::int) \<le> int (card (rt_ID ` set two))" by (simp add: two_IDs)
  have d1: "nat 1 \<le> card (drawn two [0, 0, 1])" by (subst two_drawn) simp
  have c4: "int (card (rt_ID ` set two)) < 4" by (simp add: two_IDs)
  have len: "2 \<le> length two" by (simp add: two_def)
  from FB_Balance_terminates[OF h1, of two 1000] c1 d1
  have "FB_Balance exact_ceilmul two (Inr [(''node1'', 4), (''node2'', 0)]) [0, 0, 1] 1000 node1 \<noteq> None"
    by blast
  then obtain r e' where
    res: "FB_Balance exact_ceilmul two (Inr [(''node1'', 4), (''node2'', 0)]) [0, 0, 1] 1000 node1 = Some (r, e')"
    by fastforce
  have val: "FB_Balance exact_ceilmul two (Inr [(''node1'', 4), (''node2'', 0)]) [0, 0, 1] 1000 node1 =
     Some ([''a''], node1\<lparr>delay := 1000 + Second\<rparr>)"
    using h1 by (simp add: FB_Balance_def two_def wt_def rt_ID_def Add_def Let_def)
  from FB_Balance_terminates[OF h4, of two 1000] c4 len
  have never: "FB_Balance exact_ceilmul two (Inr [(''node1'', 10), (''node2'', 0)]) [0, 1, 1, 0, 1] 1000 node1 = None"
    by blast
  from h1 c1 d1 val h4 c4 never show ?thesis by blast
qed

section \<open>Proofs: the task type multiplexer\<close>

lemma forever_value: "forever = - 9223371974719179009 * Second"
  by (simp add: forever_def Unix_def wrap64_def MaxInt64_def unixToInternal_def)

lemma mux_Add_keeps: "m k \<noteq> None \<Longrightarrow> mux_Add ty hf bal m k \<noteq> None"
  by (simp add: mux_Add_def Let_def)

lemma added_keeps: "m k \<noteq> None \<Longrightarrow> added adds m k \<noteq> None"
proof (induction adds arbitrary: m)
  case Nil
  then show ?case by (simp add: added_def)
next
  case (Cons a adds)
  obtain ty hf bal where a: "a = (ty, hf, bal)" by (cases a)
  from Cons.prems have "mux_Add ty hf bal m k \<noteq> None" by (rule mux_Add_keeps)
  from Cons.IH[of "mux_Add ty hf bal m"] this a show ?case by (simp add: added_def)
qed

lemma added_default: "\<exists>r. added adds (New defh defb) defkey = Some r"
  using added_keeps[of "New defh defb" defkey adds] by (simp add: New_def)

lemma props_at_missing: "map_of (Props t) k = None \<Longrightarrow> props_at t k = defkey"
  by (simp add: props_at_def defkey_def)

lemma mux_CanClaim_no_route:
  "map_of (Props t) TypeKey = Some typ \<Longrightarrow> m typ = None \<Longrightarrow> mux_CanClaim ext m t = Some (forever, False)"
  by (simp add: mux_CanClaim_def mux_get_def props_at_def rejectRoute_def rejecter_CanClaim_def)

text \<open>
  Claim C8, on the code. A task without a \<^verbatim>\<open>_type\<close> property is answered by the balancer of
  the default route, which a multiplexer made by \<^verbatim>\<open>New\<close> and \<^verbatim>\<open>Add\<close> always has. A task whose \<^verbatim>\<open>_type\<close> has no route is answered \<open>(forever, false)\<close>;
  but \<^verbatim>\<open>forever = time.Unix(math.MaxInt64, 0)\<close> overflows the 64-bit seconds of
  \<^verbatim>\<open>time.Time\<close>: it is an instant about 292 billion years before year 1, after no
  instant since year 1.
\<close>

theorem mux_CanClaim_unknown_type:
  "(map_of (Props t) TypeKey = None \<longrightarrow>
      mux_CanClaim ext m t = Balancer_CanClaim ext (route_b (mux_get m defkey)) t) \<and>
   (map_of (Props t) TypeKey = Some ty \<and> m ty = None \<longrightarrow> mux_CanClaim ext m t = Some (forever, False)) \<and>
   (\<exists>r. added adds (New defh defb) defkey = Some r) \<and>
   forever = - 9223371974719179009 * Second \<and>
   (\<forall>now. 0 \<le> now \<longrightarrow> \<not> After forever now)"
proof (intro conjI impI allI)
  assume "map_of (Props t) TypeKey = None"
  then show "mux_CanClaim ext m t = Balancer_CanClaim ext (route_b (mux_get m defkey)) t"
    by (simp add: mux_CanClaim_def props_at_missing)
next
  assume "map_of (Props t) TypeKey = Some ty \<and> m ty = None"
  then show "mux_CanClaim ext m t = Some (forever, False)"
    by (simp add: mux_CanClaim_no_route)
next
  show "\<exists>r. added adds (New defh defb) defkey = Some r" by (rule added_default)
next
  show "forever = - 9223371974719179009 * Second" by (rule forever_value)
next
  fix now :: Time
  assume "0 \<le> now"
  then show "\<not> After forever now" by (simp add: forever_value After_def Second_def)
qed

theorem mux_CanClaim_unknown_type_witness:
  "mux_CanClaim (\<lambda>b t. (NoDelay, True)) okmux \<lparr>ID = ''t1'', Props = []\<rparr> = Some (NoDelay, True) \<and>
   mux_CanClaim (\<lambda>b t. (NoDelay, True)) okmux \<lparr>ID = ''t2'', Props = [(TypeKey, ''x'')]\<rparr> =
     Some (forever, False) \<and>
   forever < 0 \<and> \<not> After forever 0"
proof -
  have a: "map_of (Props \<lparr>ID = ''t1'', Props = []\<rparr>) TypeKey = None" by simp
  have b: "map_of (Props \<lparr>ID = ''t2'', Props = [(TypeKey, ''x'')]\<rparr>) TypeKey = Some ''x'' \<and>
           okmux ''x'' = None"
    by (simp add: okmux_def New_def defkey_def)
  have d: "Balancer_CanClaim (\<lambda>b t. (NoDelay, True)) (route_b (mux_get okmux defkey))
             \<lparr>ID = ''t1'', Props = []\<rparr> = Some (NoDelay, True)"
    by (simp add: okmux_def New_def mux_get_def)
  from mux_CanClaim_unknown_type[where t = "\<lparr>ID = ''t1'', Props = []\<rparr>"
      and m = okmux and ext = "\<lambda>b t. (NoDelay, True)"
      and adds = "[] :: (string \<times> unit option \<times> unit Balancer option) list"
      and defh = None and defb = None] a d
  have 1: "mux_CanClaim (\<lambda>b t. (NoDelay, True)) okmux \<lparr>ID = ''t1'', Props = []\<rparr> = Some (NoDelay, True)"
    by simp
  from mux_CanClaim_unknown_type[where t = "\<lparr>ID = ''t2'', Props = [(TypeKey, ''x'')]\<rparr>"
      and ty = "''x''" and m = okmux and ext = "\<lambda>b t. (NoDelay, True)"
      and adds = "[] :: (string \<times> unit option \<times> unit Balancer option) list"
      and defh = None and defb = None] b
  have 2: "mux_CanClaim (\<lambda>b t. (NoDelay, True)) okmux \<lparr>ID = ''t2'', Props = [(TypeKey, ''x'')]\<rparr> =
     Some (forever, False)"
    and 3: "forever = - 9223371974719179009 * Second" and 4: "\<not> After forever 0"
    by simp_all
  from 3 have "forever < 0" by (simp add: Second_def)
  with 1 2 4 show ?thesis by simp
qed

section \<open>Proofs: invariants of the consumer\<close>

lemma same_rt_refl [simp]: "same_rt a a"
  by (simp add: same_rt_def)

lemma same_rt_trans: "same_rt a b \<Longrightarrow> same_rt b c \<Longrightarrow> same_rt a c"
  by (simp add: same_rt_def)

lemma same_rt_stop [simp]: "same_rt a (rt_stop now a)"
  by (simp add: same_rt_def rt_stop_def)

lemma rel_option_same_refl [simp]: "rel_option same_rt x x"
  by (cases x) simp_all

lemma rel_option_same_trans:
  "rel_option same_rt x y \<Longrightarrow> rel_option same_rt y z \<Longrightarrow> rel_option same_rt x z"
  by (cases x; cases y; cases z) (auto intro: same_rt_trans)

lemma quiet_refl [simp]: "quiet c c"
  by (simp add: quiet_def)

lemma quiet_trans:
  assumes "quiet a b" and "quiet b c"
  shows "quiet a c"
proof -
  from assms(1) obtain n1 where n1: "calls b = calls a @ n1" "\<forall>x\<in>set n1. other_call x"
    by (auto simp: quiet_def)
  from assms(2) obtain n2 where n2: "calls c = calls b @ n2" "\<forall>x\<in>set n2. other_call x"
    by (auto simp: quiet_def)
  have "calls c = calls a @ (n1 @ n2)" using n1 n2 by simp
  moreover have "\<forall>x\<in>set (n1 @ n2). other_call x" using n1 n2 by auto
  ultimately have ex: "\<exists>new. calls c = calls a @ new \<and> (\<forall>x\<in>set new. other_call x)" by blast
  have rel: "\<forall>k. rel_option same_rt (map_of (running a) k) (map_of (running c) k)"
    using assms by (auto simp: quiet_def intro: rel_option_same_trans)
  from assms ex rel show ?thesis by (simp add: quiet_def)
qed

lemma quiet_mainloop [simp]: "quiet c (c'\<lparr>mainloop := m\<rparr>) = quiet c c'"
  by (simp add: quiet_def)

lemma quiet_freeze [simp]: "quiet c (c\<lparr>freeze := m\<rparr>)"
  by (simp add: quiet_def)

lemma quiet_add_call: "\<not> is_done_release x \<Longrightarrow> quiet c (add_call x c)"
  by (simp add: quiet_def add_call_def other_call_def)

lemma quiet_stopping [simp]: "quiet c (c'\<lparr>stopping := m\<rparr>) = quiet c c'"
  by (simp add: quiet_def)

lemma quiet_stopTask: "quiet c (stopTask t c)"
  by (simp add: stopTask_def split: option.splits)

lemma quiet_balance: "quiet c (balance ts c)"
  by (simp add: balance_def quiet_def other_call_def)

lemma quiet_shutdown: "quiet c (shutdown c)"
  by (simp add: shutdown_def Let_def quiet_def other_call_def)

lemma quiet_stop_next: "quiet c (stop_next c)"
  by (simp add: stop_next_def quiet_stopTask split: mpc.splits list.splits)

lemma map_of_stop_entry:
  "map_of (map (stop_entry hid now) al) k =
   map_option (\<lambda>rt. if h rt = hid then rt_stop now rt else rt) (map_of al k)"
  by (induction al) (auto simp: stop_entry_def)

lemma fst_stop_entry [simp]: "fst (stop_entry hid now x) = fst x"
  by (simp add: stop_entry_def)

lemma rel_option_stop_entry:
  "rel_option same_rt x (map_option (\<lambda>rt. if h rt = hid then rt_stop now rt else rt) x)"
  by (cases x) simp_all

lemma quiet_run_stop: "quiet c (run_stop k now c)"
proof (cases "k < length (stopping c)")
  case True
  obtain tid hid where e: "stopping c ! k = (tid, hid)" by (cases "stopping c ! k")
  from True e show ?thesis
    by (simp add: run_stop_def quiet_def map_of_stop_entry rel_option_stop_entry other_call_def)
next
  case False
  then show ?thesis by (simp add: run_stop_def)
qed

lemma quiet_handleCommand: "quiet c (handleCommand cmd rel c)"
  by (auto simp: handleCommand_def quiet_balance quiet_stopTask split: option.splits param.splits)

lemma quiet_recv_task: "quiet c (recv_task t ign can cl c)"
proof -
  have 1: "quiet c (add_call (BalCanClaim (ID t)) c)" by (simp add: quiet_add_call)
  have 2: "quiet (add_call (BalCanClaim (ID t)) c)
             (add_call (ImIgnore (ID t) (fst can)) (add_call (BalCanClaim (ID t)) c))"
    by (simp add: quiet_add_call)
  have 3: "quiet (add_call (BalCanClaim (ID t)) c)
             (add_call (CoordClaim (ID t) cl) (add_call (BalCanClaim (ID t)) c))"
    by (simp add: quiet_add_call)
  from 1 quiet_trans[OF 1 2] quiet_trans[OF 1 3] show ?thesis
    by (cases cl) (auto simp: recv_task_def Let_def)
qed

lemma quiet_run_select: "quiet c (run_select ev c)"
  by (auto simp: run_select_def quiet_shutdown quiet_handleCommand quiet_balance quiet_recv_task
      split: event.splits option.splits)

lemma stopTask_fields [simp]:
  "freeze (stopTask t c) = freeze c" "mainloop (stopTask t c) = mainloop c"
  "calls (stopTask t c) = calls c"
  by (cases "map_of (running c) t"; simp add: stopTask_def)+

lemma balance_fields [simp]:
  "freeze (balance rel c) = freeze c" "mainloop (balance rel c) = Stopping rel False"
  by (simp_all add: balance_def)

lemma shutdown_fields [simp]:
  "freeze (shutdown c) = freeze c" "mainloop (shutdown c) \<noteq> Claiming t"
  by (simp_all add: shutdown_def Let_def)

lemma stop_next_fields [simp]:
  "freeze (stop_next c) = freeze c" "calls (stop_next c) = calls c"
  by (simp_all add: stop_next_def split: mpc.splits list.splits)

lemma run_stop_fields [simp]:
  "freeze (run_stop k now c) = freeze c" "mainloop (run_stop k now c) = mainloop c"
  by (simp_all add: run_stop_def Let_def split: prod.splits)

lemma coherent_distinct: "coherent c \<Longrightarrow> distinct (map fst (running c))"
  unfolding coherent_def by blast

lemma coherent_running:
  "coherent c \<Longrightarrow> map_of (running c) k = Some rt \<Longrightarrow>
   ID (task rt) = k \<and> handler_at c (h rt) = Some (k, InRun)"
  unfolding coherent_def by blast

lemma coherent_InRun:
  "coherent c \<Longrightarrow> handler_at c i = Some (k, InRun) \<Longrightarrow> \<exists>rt. map_of (running c) k = Some rt \<and> h rt = i"
  unfolding coherent_def by blast

lemma coherentI:
  assumes "distinct (map fst (running c))"
    and "\<And>k rt. map_of (running c) k = Some rt \<Longrightarrow>
           ID (task rt) = k \<and> handler_at c (h rt) = Some (k, InRun)"
    and "\<And>i k. handler_at c i = Some (k, InRun) \<Longrightarrow>
           \<exists>rt. map_of (running c) k = Some rt \<and> h rt = i"
  shows "coherent c"
  unfolding coherent_def using assms by blast

lemma traced_none: "traced c \<Longrightarrow> handler_at c i = None \<Longrightarrow> hcalls i c = []"
  unfolding traced_def by blast

lemma traced_some: "traced c \<Longrightarrow> handler_at c i = Some (tid, pc) \<Longrightarrow> hcalls_ok tid pc (hcalls i c)"
  unfolding traced_def by blast

lemma traced_caller:
  "traced c \<Longrightarrow> x \<in> set (calls c) \<Longrightarrow> is_done_release (snd x) \<Longrightarrow> \<exists>i. fst x = HandlerG i"
  unfolding traced_def by blast

lemma tracedI:
  assumes "\<And>i. handler_at c i = None \<Longrightarrow> hcalls i c = []"
    and "\<And>i tid pc. handler_at c i = Some (tid, pc) \<Longrightarrow> hcalls_ok tid pc (hcalls i c)"
    and "\<And>x. x \<in> set (calls c) \<Longrightarrow> is_done_release (snd x) \<Longrightarrow> \<exists>i. fst x = HandlerG i"
  shows "traced c"
  unfolding traced_def using assms by blast

lemma handler_at_quiet: "quiet c c' \<Longrightarrow> handler_at c' i = handler_at c i"
  by (simp add: quiet_def handler_at_def)

lemma hcalls_quiet:
  assumes "quiet c c'"
  shows "hcalls i c' = hcalls i c"
proof -
  from assms obtain new where n: "calls c' = calls c @ new" "\<forall>x\<in>set new. other_call x"
    by (auto simp: quiet_def)
  have "filter (\<lambda>x. fst x = HandlerG i) new = []"
    using n(2) by (auto simp: filter_empty_conv other_call_def)
  with n(1) show ?thesis by (simp add: hcalls_def)
qed

lemma coherent_quiet:
  assumes "quiet c c'" and "coherent c"
  shows "coherent c'"
proof (rule coherentI)
  have rel: "\<And>k. rel_option same_rt (map_of (running c) k) (map_of (running c') k)"
    using assms(1) by (simp add: quiet_def)
  show "distinct (map fst (running c'))" using assms(1) coherent_distinct[OF assms(2)] by (simp add: quiet_def)
  {
    fix k rt assume s: "map_of (running c') k = Some rt"
    with rel[of k] obtain rt0 where r0: "map_of (running c) k = Some rt0" "same_rt rt0 rt"
      by (cases "map_of (running c) k") auto
    from coherent_running[OF assms(2) r0(1)] r0(2)
    show "ID (task rt) = k \<and> handler_at c' (h rt) = Some (k, InRun)"
      by (simp add: same_rt_def handler_at_quiet[OF assms(1)])
  }
  {
    fix i k assume "handler_at c' i = Some (k, InRun)"
    then have "handler_at c i = Some (k, InRun)" by (simp add: handler_at_quiet[OF assms(1)])
    from coherent_InRun[OF assms(2) this] obtain rt0 where r0: "map_of (running c) k = Some rt0" "h rt0 = i"
      by blast
    with rel[of k] obtain rt where "map_of (running c') k = Some rt" "same_rt rt0 rt"
      by (cases "map_of (running c') k") auto
    with r0(2) show "\<exists>rt. map_of (running c') k = Some rt \<and> h rt = i"
      by (auto simp: same_rt_def)
  }
qed

lemma traced_quiet:
  assumes "quiet c c'" and "traced c"
  shows "traced c'"
proof (rule tracedI)
  from assms(1) obtain new where n: "calls c' = calls c @ new" "\<forall>x\<in>set new. other_call x"
    by (auto simp: quiet_def)
  {
    fix i assume "handler_at c' i = None"
    then show "hcalls i c' = []"
      using traced_none[OF assms(2), of i] by (simp add: handler_at_quiet[OF assms(1)] hcalls_quiet[OF assms(1)])
  }
  {
    fix i tid pc assume "handler_at c' i = Some (tid, pc)"
    then show "hcalls_ok tid pc (hcalls i c')"
      using traced_some[OF assms(2), of i tid pc]
      by (simp add: handler_at_quiet[OF assms(1)] hcalls_quiet[OF assms(1)])
  }
  {
    fix x assume "x \<in> set (calls c')" "is_done_release (snd x)"
    then show "\<exists>i. fst x = HandlerG i"
      using traced_caller[OF assms(2), of x] n by (auto simp: other_call_def)
  }
qed

lemma coherent_consumer0: "coherent consumer0"
  by (simp add: coherent_def consumer0_def handler_at_def)

lemma traced_consumer0: "traced consumer0"
  by (simp add: traced_def consumer0_def handler_at_def hcalls_def)

lemma coherent_mainloop [simp]: "coherent (c\<lparr>mainloop := m\<rparr>) = coherent c"
  by (simp add: coherent_def handler_at_def)

lemma traced_mainloop [simp]: "traced (c\<lparr>mainloop := m\<rparr>) = traced c"
  by (simp add: traced_def handler_at_def hcalls_def)

lemma handler_at_append:
  "handler_at (c\<lparr>handlers := handlers c @ [x]\<rparr>) i =
     (if i = length (handlers c) then Some x else handler_at c i)"
  by (simp add: handler_at_def nth_append)

lemma handler_at_set_hpc:
  "handler_at c i = Some y \<Longrightarrow>
   handler_at (set_hpc i tid pc c) j = (if j = i then Some (tid, pc) else handler_at c j)"
  by (auto simp: handler_at_def set_hpc_def split: if_splits)

lemma handler_at_fields [simp]:
  "handler_at (c\<lparr>calls := cs\<rparr>) i = handler_at c i"
  "handler_at (c\<lparr>running := r\<rparr>) i = handler_at c i"
  "handler_at (c\<lparr>hwg := n\<rparr>) i = handler_at c i"
  by (simp_all add: handler_at_def)

lemma handler_at_None_iff: "handler_at c i = None \<longleftrightarrow> length (handlers c) \<le> i"
  by (simp add: handler_at_def)

lemma set_hpc_fields [simp]:
  "running (set_hpc i tid pc c) = running c"
  "calls (set_hpc i tid pc c) = calls c"
  "stop (set_hpc i tid pc c) = stop c"
  "freeze (set_hpc i tid pc c) = freeze c"
  "mainloop (set_hpc i tid pc c) = mainloop c"
  "hwg (set_hpc i tid pc c) = hwg c"
  by (simp_all add: set_hpc_def)

lemma hcalls_fields [simp]:
  "hcalls i (set_hpc j tid pc c) = hcalls i c"
  "hcalls i (c\<lparr>running := r\<rparr>) = hcalls i c"
  "hcalls i (c\<lparr>hwg := n\<rparr>) = hcalls i c"
  "hcalls i (c\<lparr>handlers := hs\<rparr>) = hcalls i c"
  by (simp_all add: hcalls_def set_hpc_def)

lemma hcalls_snoc:
  "hcalls i (c\<lparr>calls := calls c @ [(who, x)]\<rparr>) =
     (if who = HandlerG i then hcalls i c @ [x] else hcalls i c)"
  by (simp add: hcalls_def)

lemma map_of_update_at:
  "map_of (AList.update k v al) k' = (if k' = k then Some v else map_of al k')"
  by (simp add: update_conv')

lemma map_of_delete_at:
  "map_of (AList.delete k al) k' = (if k' = k then None else map_of al k')"
  by (simp add: delete_conv')

lemma claimed_drop:
  "stop c \<or> map_of (running c) (ID t) \<noteq> None \<Longrightarrow>
   claimed t now c = c\<lparr>handlers := handlers c @ [(ID t, Created)]\<rparr>"
  by (auto simp: claimed_def Let_def)

lemma claimed_admit:
  "\<not> stop c \<Longrightarrow> map_of (running c) (ID t) = None \<Longrightarrow>
   claimed t now c =
     c\<lparr>handlers := handlers c @ [(ID t, InRun)],
       running := AList.update (ID t) (newTask t (length (handlers c)) now) (running c),
       hwg := hwg c + 1\<rparr>"
  by (simp add: claimed_def Let_def)

lemma coherent_claimed:
  assumes "coherent c"
  shows "coherent (claimed t now c)"
proof (cases "stop c \<or> map_of (running c) (ID t) \<noteq> None")
  case True
  let ?c' = "c\<lparr>handlers := handlers c @ [(ID t, Created)]\<rparr>"
  have "coherent ?c'"
  proof (rule coherentI)
    show "distinct (map fst (running ?c'))" using coherent_distinct[OF assms] by simp
  next
    fix k rt assume "map_of (running ?c') k = Some rt"
    then have m: "map_of (running c) k = Some rt" by simp
    from coherent_running[OF assms m]
    have a: "ID (task rt) = k" and b: "handler_at c (h rt) = Some (k, InRun)" by simp_all
    from b have "h rt \<noteq> length (handlers c)" by (auto simp: handler_at_def split: if_splits)
    with a b show "ID (task rt) = k \<and> handler_at ?c' (h rt) = Some (k, InRun)"
      by (simp add: handler_at_append)
  next
    fix i k assume "handler_at ?c' i = Some (k, InRun)"
    then have "handler_at c i = Some (k, InRun)"
      by (simp add: handler_at_append split: if_splits)
    from coherent_InRun[OF assms this] show "\<exists>rt. map_of (running ?c') k = Some rt \<and> h rt = i" by simp
  qed
  with True show ?thesis by (simp add: claimed_drop)
next
  case False
  then have ns: "\<not> stop c" and nr: "map_of (running c) (ID t) = None" by simp_all
  let ?rt = "newTask t (length (handlers c)) now"
  let ?c' = "c\<lparr>handlers := handlers c @ [(ID t, InRun)],
       running := AList.update (ID t) ?rt (running c), hwg := hwg c + 1\<rparr>"
  have "coherent ?c'"
  proof (rule coherentI)
    show "distinct (map fst (running ?c'))" using coherent_distinct[OF assms] by (simp add: distinct_update)
  next
    fix k rt assume s: "map_of (running ?c') k = Some rt"
    show "ID (task rt) = k \<and> handler_at ?c' (h rt) = Some (k, InRun)"
    proof (cases "k = ID t")
      case True
      with s have "rt = ?rt" by (simp add: map_of_update_at)
      with True show ?thesis by (simp add: handler_at_append newTask_def)
    next
      case False
      with s have m: "map_of (running c) k = Some rt" by (simp add: map_of_update_at)
      from coherent_running[OF assms m]
      have a: "ID (task rt) = k" and b: "handler_at c (h rt) = Some (k, InRun)" by simp_all
      from b have "h rt \<noteq> length (handlers c)" by (auto simp: handler_at_def split: if_splits)
      with a b show ?thesis by (simp add: handler_at_append)
    qed
  next
    fix i k assume s: "handler_at ?c' i = Some (k, InRun)"
    show "\<exists>rt. map_of (running ?c') k = Some rt \<and> h rt = i"
    proof (cases "i = length (handlers c)")
      case True
      with s have "k = ID t" by (simp add: handler_at_append)
      with True show ?thesis by (simp add: map_of_update_at newTask_def)
    next
      case False
      with s have "handler_at c i = Some (k, InRun)" by (simp add: handler_at_append)
      from coherent_InRun[OF assms this] obtain rt where r: "map_of (running c) k = Some rt" "h rt = i" by blast
      with nr have "k \<noteq> ID t" by auto
      with r show ?thesis by (simp add: map_of_update_at)
    qed
  qed
  with ns nr show ?thesis by (simp add: claimed_admit)
qed

lemma claimed_handlers:
  "\<exists>pc. (pc = Created \<or> pc = InRun) \<and> handlers (claimed t now c) = handlers c @ [(ID t, pc)]"
  by (cases "stop c \<or> map_of (running c) (ID t) \<noteq> None") (auto simp: claimed_drop claimed_admit)

lemma claimed_calls [simp]: "calls (claimed t now c) = calls c"
  by (cases "stop c \<or> map_of (running c) (ID t) \<noteq> None") (auto simp: claimed_drop claimed_admit)

lemma hcalls_claimed [simp]: "hcalls i (claimed t now c) = hcalls i c"
  by (simp add: hcalls_def)

lemma traced_claimed:
  assumes "traced c"
  shows "traced (claimed t now c)"
proof -
  from claimed_handlers[of t now c] obtain pc where
    pc: "pc = Created \<or> pc = InRun" and hs: "handlers (claimed t now c) = handlers c @ [(ID t, pc)]"
    by blast
  have ha: "\<And>i. handler_at (claimed t now c) i =
      (if i = length (handlers c) then Some (ID t, pc) else handler_at c i)"
    by (simp add: handler_at_def hs nth_append)
  have new: "hcalls (length (handlers c)) c = []"
    by (rule traced_none[OF assms]) (simp add: handler_at_def)
  show ?thesis
  proof (rule tracedI)
    fix i assume "handler_at (claimed t now c) i = None"
    then have "handler_at c i = None" by (simp add: ha split: if_splits)
    from traced_none[OF assms this] show "hcalls i (claimed t now c) = []" by simp
  next
    fix i tid p assume s: "handler_at (claimed t now c) i = Some (tid, p)"
    show "hcalls_ok tid p (hcalls i (claimed t now c))"
    proof (cases "i = length (handlers c)")
      case True
      with s have "tid = ID t" "p = pc" by (simp_all add: ha)
      with True pc new show ?thesis by auto
    next
      case False
      with s have "handler_at c i = Some (tid, p)" by (simp add: ha)
      from traced_some[OF assms this] show ?thesis by simp
    qed
  next
    fix x assume "x \<in> set (calls (claimed t now c))" "is_done_release (snd x)"
    then show "\<exists>i. fst x = HandlerG i" using traced_caller[OF assms, of x] by simp
  qed
qed

lemma step_HandlerReturn:
  "handler_at c i = Some (tid, InRun) \<Longrightarrow>
   step (HandlerReturn i out) c =
     set_hpc i tid (Purged (done_of out))
       (c\<lparr>calls := calls c @ [(HandlerG i, HRun tid out)], running := AList.delete tid (running c)\<rparr>)"
  by (simp add: runTask_def done_of_def Let_def)

lemma step_HandlerReturn_idle:
  "\<forall>tid. handler_at c i \<noteq> Some (tid, InRun) \<Longrightarrow> step (HandlerReturn i out) c = c"
  by (auto split: option.splits prod.splits hpc.splits)

lemma step_HandlerNotify:
  "handler_at c i = Some (tid, Purged d) \<Longrightarrow>
   step (HandlerNotify i) c =
     set_hpc i tid Notified (c\<lparr>calls := calls c @ [(HandlerG i, notify_call tid d)]\<rparr>)"
  by simp

lemma step_HandlerNotify_idle:
  "\<forall>tid d. handler_at c i \<noteq> Some (tid, Purged d) \<Longrightarrow> step (HandlerNotify i) c = c"
  by (auto split: option.splits prod.splits hpc.splits)

lemma step_HandlerExit:
  "handler_at c i = Some (tid, Notified) \<Longrightarrow>
   step (HandlerExit i) c = set_hpc i tid Exited (c\<lparr>hwg := hwg c - 1\<rparr>)"
  by simp

lemma step_HandlerExit_idle:
  "\<forall>tid. handler_at c i \<noteq> Some (tid, Notified) \<Longrightarrow> step (HandlerExit i) c = c"
  by (auto split: option.splits prod.splits hpc.splits)

declare step.simps [simp del]

lemmas step_main = step.simps(1-6)

lemma coherent_set_hpc:
  assumes "coherent c" and "handler_at c i = Some (tid, pc)" and "pc \<noteq> InRun" and "pc' \<noteq> InRun"
  shows "coherent (set_hpc i tid pc' c)"
proof (rule coherentI)
  show "distinct (map fst (running (set_hpc i tid pc' c)))" using coherent_distinct[OF assms(1)] by simp
next
  fix k rt assume "map_of (running (set_hpc i tid pc' c)) k = Some rt"
  then have m: "map_of (running c) k = Some rt" by simp
  from coherent_running[OF assms(1) m]
  have a: "ID (task rt) = k" and b: "handler_at c (h rt) = Some (k, InRun)" by simp_all
  from b assms(2,3) have "h rt \<noteq> i" by auto
  with a b show "ID (task rt) = k \<and> handler_at (set_hpc i tid pc' c) (h rt) = Some (k, InRun)"
    by (simp add: handler_at_set_hpc[OF assms(2)])
next
  fix j k assume "handler_at (set_hpc i tid pc' c) j = Some (k, InRun)"
  then have "handler_at c j = Some (k, InRun)"
    using assms(4) by (simp add: handler_at_set_hpc[OF assms(2)] split: if_splits)
  from coherent_InRun[OF assms(1) this]
  show "\<exists>rt. map_of (running (set_hpc i tid pc' c)) k = Some rt \<and> h rt = j" by simp
qed

lemma coherent_calls [simp]: "coherent (c\<lparr>calls := cs\<rparr>) = coherent c"
  by (simp add: coherent_def)

lemma coherent_hwg [simp]: "coherent (c\<lparr>hwg := n\<rparr>) = coherent c"
  by (simp add: coherent_def)

lemma coherent_HandlerReturn:
  assumes "coherent c" and hi: "handler_at c i = Some (tid, InRun)"
  shows "coherent (step (HandlerReturn i out) c)"
proof -
  let ?c1 = "c\<lparr>calls := calls c @ [(HandlerG i, HRun tid out)], running := AList.delete tid (running c)\<rparr>"
  let ?c' = "set_hpc i tid (Purged (done_of out)) ?c1"
  have hi1: "handler_at ?c1 i = Some (tid, InRun)" using hi by simp
  have ha: "\<And>j. handler_at ?c' j = (if j = i then Some (tid, Purged (done_of out)) else handler_at c j)"
    by (simp add: handler_at_set_hpc[OF hi1])
  from coherent_InRun[OF assms(1) hi] obtain rti where rti: "map_of (running c) tid = Some rti" "h rti = i"
    by blast
  have "coherent ?c'"
  proof (rule coherentI)
    show "distinct (map fst (running ?c'))" using coherent_distinct[OF assms(1)] by (simp add: distinct_delete)
  next
    fix k rt assume "map_of (running ?c') k = Some rt"
    then have kt: "k \<noteq> tid" and m: "map_of (running c) k = Some rt"
      by (simp_all add: map_of_delete_at split: if_splits)
    from coherent_running[OF assms(1) m]
    have a: "ID (task rt) = k" and b: "handler_at c (h rt) = Some (k, InRun)" by simp_all
    from b hi kt have "h rt \<noteq> i" by auto
    with a b show "ID (task rt) = k \<and> handler_at ?c' (h rt) = Some (k, InRun)" by (simp add: ha)
  next
    fix j k assume s: "handler_at ?c' j = Some (k, InRun)"
    then have ji: "j \<noteq> i" and hj: "handler_at c j = Some (k, InRun)"
      by (simp_all add: ha split: if_splits)
    from coherent_InRun[OF assms(1) hj] obtain rt where rt: "map_of (running c) k = Some rt" "h rt = j"
      by blast
    with rti ji have "k \<noteq> tid" by auto
    with rt show "\<exists>rt. map_of (running ?c') k = Some rt \<and> h rt = j" by (simp add: map_of_delete_at)
  qed
  then show ?thesis unfolding step_HandlerReturn[OF hi] .
qed

lemma coherent_stop [simp]: "coherent (c\<lparr>stop := b\<rparr>) = coherent c"
  by (simp add: coherent_def handler_at_def)

lemma traced_stop [simp]: "traced (c\<lparr>stop := b\<rparr>) = traced c"
  by (simp add: traced_def handler_at_def hcalls_def)

lemma coherent_step:
  assumes "coherent c"
  shows "coherent (step a c)"
proof (cases a)
  case DoClose
  then show ?thesis using assms by (simp add: step_main close_def)
next
  case (MainSelect ev)
  then show ?thesis using assms coherent_quiet[OF quiet_run_select] by (simp add: step_main)
next
  case (MainClaimed now)
  then show ?thesis using assms by (simp add: step_main coherent_claimed split: mpc.splits)
next
  case MainWaitDone
  then show ?thesis using assms by (simp add: step_main)
next
  case MainStopTask
  then show ?thesis using assms coherent_quiet[OF quiet_stop_next] by (simp add: step_main)
next
  case (StopRun k now)
  then show ?thesis using assms coherent_quiet[OF quiet_run_stop] by (simp add: step_main)
next
  case (HandlerReturn i out)
  show ?thesis
  proof (cases "\<exists>tid. handler_at c i = Some (tid, InRun)")
    case True
    then show ?thesis using coherent_HandlerReturn[OF assms] HandlerReturn by blast
  next
    case False
    then show ?thesis using assms HandlerReturn by (simp add: step_HandlerReturn_idle)
  qed
next
  case (HandlerNotify i)
  show ?thesis
  proof (cases "\<exists>tid d. handler_at c i = Some (tid, Purged d)")
    case True
    then obtain tid d where hi: "handler_at c i = Some (tid, Purged d)" by blast
    let ?c1 = "c\<lparr>calls := calls c @ [(HandlerG i, notify_call tid d)]\<rparr>"
    have "coherent (set_hpc i tid Notified ?c1)"
      by (rule coherent_set_hpc[where pc = "Purged d"]) (use assms hi in simp_all)
    then show ?thesis unfolding HandlerNotify step_HandlerNotify[OF hi] .
  next
    case False
    then show ?thesis using assms HandlerNotify by (simp add: step_HandlerNotify_idle)
  qed
next
  case (HandlerExit i)
  show ?thesis
  proof (cases "\<exists>tid. handler_at c i = Some (tid, Notified)")
    case True
    then obtain tid where hi: "handler_at c i = Some (tid, Notified)" by blast
    have "coherent (set_hpc i tid Exited (c\<lparr>hwg := hwg c - 1\<rparr>))"
      by (rule coherent_set_hpc[where pc = Notified]) (use assms hi in simp_all)
    then show ?thesis unfolding HandlerExit step_HandlerExit[OF hi] .
  next
    case False
    then show ?thesis using assms HandlerExit by (simp add: step_HandlerExit_idle)
  qed
qed

lemma exec_snoc: "exec (as @ [a]) c = step a (exec as c)"
  by (simp add: exec_def)

lemma exec_Nil [simp]: "exec [] c = c"
  by (simp add: exec_def)

lemma exec_Cons: "exec (a # as) c = exec as (step a c)"
  by (simp add: exec_def)

lemma exec_append: "exec (as @ bs) c = exec bs (exec as c)"
  by (simp add: exec_def)

lemma coherent_exec: "coherent c \<Longrightarrow> coherent (exec as c)"
  by (induction as rule: rev_induct) (simp_all add: exec_snoc coherent_step)

lemma traced_handler_step:
  assumes tr: "traced c" and hi: "handler_at c i = Some (tid, pc)"
    and ok: "hcalls_ok tid pc (hcalls i c) \<Longrightarrow> hcalls_ok tid pc' (hcalls i c @ new)"
    and hd: "\<forall>x\<in>set new. True"
  shows "traced (set_hpc i tid pc' (c\<lparr>calls := calls c @ map (Pair (HandlerG i)) new\<rparr>))"
proof (rule tracedI)
  let ?c1 = "c\<lparr>calls := calls c @ map (Pair (HandlerG i)) new\<rparr>"
  let ?c' = "set_hpc i tid pc' ?c1"
  have hi1: "handler_at ?c1 i = Some (tid, pc)" using hi by simp
  have ha: "\<And>j. handler_at ?c' j = (if j = i then Some (tid, pc') else handler_at c j)"
    by (simp add: handler_at_set_hpc[OF hi1])
  have hc: "\<And>j. hcalls j ?c1 = (if j = i then hcalls i c @ new else hcalls j c)"
    by (simp add: hcalls_def filter_map comp_def)
  {
    fix j assume "handler_at ?c' j = None"
    then have "j \<noteq> i" "handler_at c j = None" by (simp_all add: ha split: if_splits)
    with traced_none[OF tr, of j] show "hcalls j ?c' = []" by (simp add: hc)
  }
  {
    fix j t p assume s: "handler_at ?c' j = Some (t, p)"
    show "hcalls_ok t p (hcalls j ?c')"
    proof (cases "j = i")
      case True
      with s have "t = tid" "p = pc'" by (simp_all add: ha)
      with True ok[OF traced_some[OF tr hi]] show ?thesis by (simp add: hc)
    next
      case False
      with s have "handler_at c j = Some (t, p)" by (simp add: ha)
      from traced_some[OF tr this] False show ?thesis by (simp add: hc)
    qed
  }
  {
    fix x assume "x \<in> set (calls ?c')" "is_done_release (snd x)"
    then show "\<exists>k. fst x = HandlerG k" using traced_caller[OF tr, of x] by auto
  }
qed

lemma traced_step:
  assumes "traced c"
  shows "traced (step a c)"
proof (cases a)
  case DoClose
  then show ?thesis using assms by (simp add: step_main close_def)
next
  case (MainSelect ev)
  then show ?thesis using assms traced_quiet[OF quiet_run_select] by (simp add: step_main)
next
  case (MainClaimed now)
  then show ?thesis using assms by (simp add: step_main traced_claimed split: mpc.splits)
next
  case MainWaitDone
  then show ?thesis using assms by (simp add: step_main)
next
  case MainStopTask
  then show ?thesis using assms traced_quiet[OF quiet_stop_next] by (simp add: step_main)
next
  case (StopRun k now)
  then show ?thesis using assms traced_quiet[OF quiet_run_stop] by (simp add: step_main)
next
  case (HandlerReturn i out)
  show ?thesis
  proof (cases "\<exists>tid. handler_at c i = Some (tid, InRun)")
    case True
    then obtain tid where hi: "handler_at c i = Some (tid, InRun)" by blast
    have "traced (set_hpc i tid (Purged (done_of out))
            (c\<lparr>calls := calls c @ map (Pair (HandlerG i)) [HRun tid out]\<rparr>))"
      by (rule traced_handler_step[OF assms hi]) simp_all
    then have "traced (set_hpc i tid (Purged (done_of out))
            (c\<lparr>calls := calls c @ [(HandlerG i, HRun tid out)], running := AList.delete tid (running c)\<rparr>))"
      by (simp add: traced_def handler_at_def set_hpc_def hcalls_def)
    then show ?thesis unfolding HandlerReturn step_HandlerReturn[OF hi] .
  next
    case False
    then show ?thesis using assms HandlerReturn by (simp add: step_HandlerReturn_idle)
  qed
next
  case (HandlerNotify i)
  show ?thesis
  proof (cases "\<exists>tid d. handler_at c i = Some (tid, Purged d)")
    case True
    then obtain tid d where hi: "handler_at c i = Some (tid, Purged d)" by blast
    have "traced (set_hpc i tid Notified
            (c\<lparr>calls := calls c @ map (Pair (HandlerG i)) [notify_call tid d]\<rparr>))"
      by (rule traced_handler_step[OF assms hi]) auto
    then show ?thesis unfolding HandlerNotify step_HandlerNotify[OF hi] by simp
  next
    case False
    then show ?thesis using assms HandlerNotify by (simp add: step_HandlerNotify_idle)
  qed
next
  case (HandlerExit i)
  show ?thesis
  proof (cases "\<exists>tid. handler_at c i = Some (tid, Notified)")
    case True
    then obtain tid where hi: "handler_at c i = Some (tid, Notified)" by blast
    have "traced (set_hpc i tid Exited
            (c\<lparr>calls := calls c @ map (Pair (HandlerG i)) []\<rparr>))"
      by (rule traced_handler_step[OF assms hi]) auto
    then have "traced (set_hpc i tid Exited (c\<lparr>hwg := hwg c - 1\<rparr>))"
      by (simp add: traced_def handler_at_def set_hpc_def hcalls_def)
    then show ?thesis unfolding HandlerExit step_HandlerExit[OF hi] .
  next
    case False
    then show ?thesis using assms HandlerExit by (simp add: step_HandlerExit_idle)
  qed
qed

lemma traced_exec: "traced c \<Longrightarrow> traced (exec as c)"
  by (induction as rule: rev_induct) (simp_all add: exec_snoc traced_step)




lemma live_fields [simp]:
  "live (c\<lparr>calls := cs\<rparr>) = live c" "live (c\<lparr>hwg := n\<rparr>) = live c"
  "live (c\<lparr>running := r\<rparr>) = live c" "live (c\<lparr>mainloop := m\<rparr>) = live c"
  "live (c\<lparr>stop := b\<rparr>) = live c"
  by (simp_all add: live_def)










lemma pending_fields [simp]:
  "pending (c\<lparr>calls := cs\<rparr>) = pending c" "pending (c\<lparr>hwg := n\<rparr>) = pending c"
  "pending (c\<lparr>running := r\<rparr>) = pending c" "pending (c\<lparr>handlers := hs\<rparr>) = pending c"
  "pending (c\<lparr>stop := b\<rparr>) = pending c" "pending (c\<lparr>freeze := b\<rparr>) = pending c"
  "pending (c\<lparr>stopping := s\<rparr>) = pending c"
  by (simp_all add: pending_def)

lemma claimed_ids_fields [simp]:
  "claimed_ids (c\<lparr>mainloop := m\<rparr>) = claimed_ids c" "claimed_ids (c\<lparr>hwg := n\<rparr>) = claimed_ids c"
  "claimed_ids (c\<lparr>running := r\<rparr>) = claimed_ids c" "claimed_ids (c\<lparr>handlers := hs\<rparr>) = claimed_ids c"
  "claimed_ids (c\<lparr>stop := b\<rparr>) = claimed_ids c" "claimed_ids (c\<lparr>freeze := b\<rparr>) = claimed_ids c"
  "claimed_ids (c\<lparr>stopping := s\<rparr>) = claimed_ids c"
  by (simp_all add: claimed_ids_def)

lemma stopTask_handlers [simp]: "handlers (stopTask t c) = handlers c"
  by (cases "map_of (running c) t") (simp_all add: stopTask_def)











section \<open>Proofs: Tasks\<close>

lemmas consumer_defs =
  exec_def step.simps consumer0_def run_select_def recv_task_def add_call_def Frozen_def
  claimed_def close_def shutdown_def balance_def stopTask_def handleCommand_def Tasks_def
  task_ids_def stop_next_def run_stop_def stop_entry_def
  runTask_def handler_at_def set_hpc_def notify_call_def newTask_def rt_stop_def rt_ID_def
  IsZero_def NoDelay_def Let_def tk_def accept_def hcalls_def running_ids_def
  cmdFreeze_def cmdUnfreeze_def cmdBalance_def cmdStopTask_def

lemma Tasks_Some:
  assumes "coherent c"
  shows "Tasks c = map Some (map (\<lambda>id. the (map_of (running c) id)) (sort (map fst (running c))))"
proof -
  have "\<And>k. k \<in> set (sort (map fst (running c))) \<Longrightarrow>
          map_of (running c) k = Some (the (map_of (running c) k))"
  proof -
    fix k assume "k \<in> set (sort (map fst (running c)))"
    then have "k \<in> fst ` set (running c)" by simp
    then have "map_of (running c) k \<noteq> None" by (simp add: map_of_eq_None_iff)
    then show "map_of (running c) k = Some (the (map_of (running c) k))" by simp
  qed
  then show ?thesis by (simp add: Tasks_def Let_def)
qed

lemma Tasks_IDs:
  assumes "coherent c"
  shows "map (\<lambda>id. rt_ID (the (map_of (running c) id))) (sort (map fst (running c))) =
         sort (map fst (running c))"
proof -
  have "\<And>k. k \<in> set (sort (map fst (running c))) \<Longrightarrow> rt_ID (the (map_of (running c) k)) = k"
  proof -
    fix k assume "k \<in> set (sort (map fst (running c)))"
    then have "k \<in> fst ` set (running c)" by simp
    then have "map_of (running c) k \<noteq> None" by (simp add: map_of_eq_None_iff)
    then obtain rt where rt: "map_of (running c) k = Some rt" by blast
    from coherent_running[OF assms rt] rt show "rt_ID (the (map_of (running c) k)) = k"
      by (simp add: rt_ID_def)
  qed
  then show ?thesis by (intro map_idI) simp
qed

lemma Tasks_set:
  assumes "coherent c"
  shows "set (map (\<lambda>id. the (map_of (running c) id)) (sort (map fst (running c)))) =
         snd ` set (running c)"
proof -
  have d: "distinct (map fst (running c))" by (rule coherent_distinct[OF assms])
  have "(\<lambda>id. the (map_of (running c) id)) ` fst ` set (running c) = snd ` set (running c)"
  proof (intro set_eqI iffI)
    fix x assume "x \<in> (\<lambda>id. the (map_of (running c) id)) ` fst ` set (running c)"
    then obtain k v where kv: "(k, v) \<in> set (running c)" "x = the (map_of (running c) k)" by auto
    from d kv(1) have "map_of (running c) k = Some v" by simp
    with kv show "x \<in> snd ` set (running c)" by force
  next
    fix x assume "x \<in> snd ` set (running c)"
    then obtain k where kv: "(k, x) \<in> set (running c)" by auto
    from d kv have "map_of (running c) k = Some x" by simp
    then have "x = the (map_of (running c) k)" by simp
    with kv show "x \<in> (\<lambda>id. the (map_of (running c) id)) ` fst ` set (running c)" by force
  qed
  then show ?thesis by simp
qed

text \<open>
  Claim C7. In every state the consumer reaches, \<^verbatim>\<open>Tasks()\<close> returns no \<^verbatim>\<open>nil\<close> entry; the
  IDs of the tasks it returns are the keys of \<open>running\<close> in ascending lexicographic order,
  each once, and the tasks returned are the entries of \<open>running\<close>, one for each.
\<close>

theorem Tasks_sorted:
  "\<exists>rts. Tasks (exec as consumer0) = map Some rts \<and>
         map rt_ID rts = sort (map fst (running (exec as consumer0))) \<and>
         sorted (map rt_ID rts) \<and> distinct (map rt_ID rts) \<and>
         length rts = length (running (exec as consumer0)) \<and>
         set rts = snd ` set (running (exec as consumer0))"
proof -
  let ?c = "exec as consumer0"
  let ?rts = "map (\<lambda>id. the (map_of (running ?c) id)) (sort (map fst (running ?c)))"
  have co: "coherent ?c" by (rule coherent_exec[OF coherent_consumer0])
  have ids: "map rt_ID ?rts = sort (map fst (running ?c))"
    using Tasks_IDs[OF co] by (simp add: comp_def)
  have "Tasks ?c = map Some ?rts" by (rule Tasks_Some[OF co])
  moreover have "sorted (map rt_ID ?rts)" unfolding ids by simp
  moreover have "distinct (map rt_ID ?rts)" unfolding ids using coherent_distinct[OF co] by simp
  moreover have "length ?rts = length (running ?c)" by simp
  moreover have "set ?rts = snd ` set (running ?c)" by (rule Tasks_set[OF co])
  ultimately show ?thesis using ids by blast
qed

lemma three_running_state:
  "running (exec three_running consumer0) =
     [(''t2'', \<lparr>task = tk ''t2'', h = 0, started = 1, stopped = 0\<rparr>),
      (''t10'', \<lparr>task = tk ''t10'', h = 1, started = 2, stopped = 0\<rparr>),
      (''a'', \<lparr>task = tk ''a'', h = 2, started = 3, stopped = 0\<rparr>)]"
  by (simp add: three_running_def exec_def step.simps consumer0_def run_select_def recv_task_def
      add_call_def Frozen_def claimed_def newTask_def Let_def accept_def NoDelay_def tk_def)

theorem Tasks_sorted_witness:
  "map (map_option rt_ID) (Tasks (exec three_running consumer0)) = [Some ''a'', Some ''t10'', Some ''t2'']"
proof -
  from Tasks_sorted[of three_running] obtain rts where
    r: "Tasks (exec three_running consumer0) = map Some rts"
       "map rt_ID rts = sort (map fst (running (exec three_running consumer0)))"
    by blast
  have "sort (map fst (running (exec three_running consumer0))) = [''a'', ''t10'', ''t2'']"
    by (simp add: three_running_state)
  with r have ids: "map rt_ID rts = [''a'', ''t10'', ''t2'']" by simp
  have "map (map_option rt_ID) (map Some rts) = map Some (map rt_ID rts)" by (simp add: comp_def)
  with r(1) show ?thesis unfolding ids by simp
qed

section \<open>Proofs: no admission after stop\<close>

lemma running_ids_quiet: "quiet c c' \<Longrightarrow> running_ids c' = running_ids c"
proof -
  assume "quiet c c'"
  then have "map fst (running c') = map fst (running c)" by (simp add: quiet_def)
  then have "set (map fst (running c')) = set (map fst (running c))" by simp
  then show ?thesis by (simp add: running_ids_def)
qed

lemma stop_quiet: "quiet c c' \<Longrightarrow> stop c' = stop c"
  by (simp add: quiet_def)

lemma running_ids_delete:
  "running_ids (c\<lparr>running := AList.delete k (running c)\<rparr>) = running_ids c - {k}"
  by (auto simp: running_ids_def AList.delete_eq)

lemma running_ids_fields [simp]:
  "running_ids (set_hpc i tid pc c) = running_ids c"
  "running_ids (c\<lparr>calls := cs\<rparr>) = running_ids c"
  "running_ids (c\<lparr>hwg := n\<rparr>) = running_ids c"
  "running_ids (c\<lparr>mainloop := m\<rparr>) = running_ids c"
  "running_ids (c\<lparr>stop := b\<rparr>) = running_ids c"
  "running_ids (c\<lparr>handlers := hs\<rparr>) = running_ids c"
  by (simp_all add: running_ids_def)

lemma step_handler_stop: "stop (step (HandlerReturn i out) c) = stop c"
  "stop (step (HandlerNotify i) c) = stop c" "stop (step (HandlerExit i) c) = stop c"
  by (auto simp: step.simps runTask_def Let_def split: option.splits prod.splits hpc.splits)

lemma step_handler_ids:
  "running_ids (step (HandlerReturn i out) c) \<subseteq> running_ids c"
  "running_ids (step (HandlerNotify i) c) = running_ids c"
  "running_ids (step (HandlerExit i) c) = running_ids c"
proof -
  show "running_ids (step (HandlerReturn i out) c) \<subseteq> running_ids c"
  proof (cases "\<exists>tid. handler_at c i = Some (tid, InRun)")
    case True
    then obtain tid where hi: "handler_at c i = Some (tid, InRun)" by blast
    have "running_ids (c\<lparr>calls := calls c @ [(HandlerG i, HRun tid out)],
            running := AList.delete tid (running c)\<rparr>) = running_ids c - {tid}"
      by (auto simp: running_ids_def AList.delete_eq)
    then show ?thesis unfolding step_HandlerReturn[OF hi] by auto
  next
    case False
    then show ?thesis by (simp add: step_HandlerReturn_idle)
  qed
  show "running_ids (step (HandlerNotify i) c) = running_ids c"
    by (auto simp: step.simps split: option.splits prod.splits hpc.splits)
  show "running_ids (step (HandlerExit i) c) = running_ids c"
    by (auto simp: step.simps split: option.splits prod.splits hpc.splits)
qed

lemma claimed_stopped:
  "stop c \<Longrightarrow> running (claimed t now c) = running c \<and> hwg (claimed t now c) = hwg c \<and>
     stop (claimed t now c)"
  by (simp add: claimed_drop)

lemma stop_step:
  assumes "stop c"
  shows "stop (step a c) \<and> running_ids (step a c) \<subseteq> running_ids c"
proof (cases a)
  case DoClose
  then show ?thesis using assms by (simp add: step_main close_def)
next
  case (MainSelect ev)
  then show ?thesis
    using assms stop_quiet[OF quiet_run_select[of c ev]]
      running_ids_quiet[OF quiet_run_select[of c ev]]
    by (simp add: step_main)
next
  case MainStopTask
  then show ?thesis
    using assms stop_quiet[OF quiet_stop_next[of c]] running_ids_quiet[OF quiet_stop_next[of c]]
    by (simp add: step_main)
next
  case (StopRun k now)
  then show ?thesis
    using assms stop_quiet[OF quiet_run_stop[of c k now]]
      running_ids_quiet[OF quiet_run_stop[of c k now]]
    by (simp add: step_main)
next
  case (MainClaimed now)
  then show ?thesis using assms claimed_stopped[OF assms]
    by (auto simp: step_main running_ids_def split: mpc.splits)
next
  case MainWaitDone
  then show ?thesis using assms by (simp add: step_main)
next
  case (HandlerReturn i out)
  then show ?thesis using assms step_handler_stop(1)[of i out c] step_handler_ids(1)[of i out c] by simp
next
  case (HandlerNotify i)
  then show ?thesis using assms step_handler_stop(2)[of i c] step_handler_ids(2)[of i c] by simp
next
  case (HandlerExit i)
  then show ?thesis using assms step_handler_stop(3)[of i c] step_handler_ids(3)[of i c] by simp
qed

lemma stop_exec:
  "stop c \<Longrightarrow> stop (exec as c) \<and> running_ids (exec as c) \<subseteq> running_ids c"
proof (induction as rule: rev_induct)
  case Nil
  then show ?case by simp
next
  case (snoc a as)
  then have s: "stop (exec as c)" and i: "running_ids (exec as c) \<subseteq> running_ids c" by simp_all
  from stop_step[OF s, of a] i show ?case by (auto simp: exec_snoc)
qed

text \<open>
  Claim C5. From a state in which \<^verbatim>\<open>stop\<close> is closed, whatever steps the goroutines take,
  \<^verbatim>\<open>stop\<close> stays closed and no task ID is added to \<open>running\<close>: \<^verbatim>\<open>claimed\<close>, which checks
  \<^verbatim>\<open>stop\<close> under the lock that \<^verbatim>\<open>close\<close> holds, leaves \<open>running\<close> and the wait group as they
  are. A step that adds a task ID to \<open>running\<close> starts and ends with \<^verbatim>\<open>stop\<close> open: it
  comes before the close of \<^verbatim>\<open>stop\<close>.
\<close>

theorem stop_blocks_admission:
  "(stop c \<longrightarrow> stop (exec as c) \<and> running_ids (exec as c) \<subseteq> running_ids c) \<and>
   (stop c \<longrightarrow> running (claimed t now c) = running c \<and> hwg (claimed t now c) = hwg c) \<and>
   stop (close c) \<and>
   (\<forall>k. k \<in> running_ids (step a c) \<and> k \<notin> running_ids c \<longrightarrow> \<not> stop c \<and> \<not> stop (step a c))"
proof (intro conjI impI allI)
  assume "stop c"
  then show "stop (exec as c)" and "running_ids (exec as c) \<subseteq> running_ids c"
    using stop_exec[of c as] by simp_all
next
  assume "stop c"
  then show "running (claimed t now c) = running c" and "hwg (claimed t now c) = hwg c"
    using claimed_stopped[of c t now] by simp_all
next
  show "stop (close c)" by (simp add: close_def)
next
  fix k assume a: "k \<in> running_ids (step a c) \<and> k \<notin> running_ids c"
  show "\<not> stop c" using a stop_step[of c a] by auto
  have grow: "\<not> running_ids (step a c) \<subseteq> running_ids c" using a by auto
  show "\<not> stop (step a c)"
  proof (cases a)
    case DoClose
    with grow show ?thesis by (simp add: step_main close_def split: if_splits)
  next
    case (MainSelect ev)
    with grow running_ids_quiet[OF quiet_run_select[of c ev]] show ?thesis
      by (simp add: step_main split: if_splits)
  next
    case MainStopTask
    with grow running_ids_quiet[OF quiet_stop_next[of c]] show ?thesis
      by (simp add: step_main)
  next
    case (StopRun k now)
    with grow running_ids_quiet[OF quiet_run_stop[of c k now]] show ?thesis
      by (simp add: step_main)
  next
    case (MainClaimed now)
    show ?thesis
    proof (cases "mainloop c")
      case (Claiming t')
      have ns: "\<not> stop c" using a stop_step[of c "MainClaimed now"] MainClaimed by auto
      have "map_of (running c) (ID t') = None"
      proof (rule ccontr)
        assume "map_of (running c) (ID t') \<noteq> None"
        then have "claimed t' now c = c\<lparr>handlers := handlers c @ [(ID t', Created)]\<rparr>"
          by (simp add: claimed_drop)
        with grow MainClaimed Claiming show False by (simp add: step_main)
      qed
      with ns MainClaimed Claiming show ?thesis by (simp add: step_main claimed_admit)
    qed (use grow MainClaimed in \<open>simp_all add: step_main\<close>)
  next
    case MainWaitDone
    with grow show ?thesis by (simp add: step_main split: if_splits)
  next
    case (HandlerReturn i out)
    with grow step_handler_ids(1)[of i out c] show ?thesis by simp
  next
    case (HandlerNotify i)
    with grow step_handler_ids(2)[of i c] show ?thesis by simp
  next
    case (HandlerExit i)
    with grow step_handler_ids(3)[of i c] show ?thesis by simp
  qed
qed

lemma closing_state:
  "closing = \<lparr>running = [(''a'', \<lparr>task = tk ''a'', h = 0, started = 1, stopped = 0\<rparr>)],
      stop = True, freeze = False, hwg = 1, handlers = [(''a'', InRun)], stopping = [],
      mainloop = Claiming (tk ''b''),
      calls = [(MainLoop, BalCanClaim ''a''), (MainLoop, CoordClaim ''a'' True),
               (MainLoop, BalCanClaim ''b''), (MainLoop, CoordClaim ''b'' True)]\<rparr>"
  by (simp add: closing_def exec_def step.simps consumer0_def run_select_def recv_task_def
      add_call_def Frozen_def claimed_def close_def newTask_def Let_def accept_def NoDelay_def tk_def)

theorem stop_blocks_admission_witness:
  "stop closing \<and> running_ids closing = {''a''} \<and>
   stop (exec [MainClaimed 4, MainSelect (accept ''c''), MainClaimed 6] closing) \<and>
   running_ids (exec [MainClaimed 4, MainSelect (accept ''c''), MainClaimed 6] closing) \<subseteq> {''a''} \<and>
   running (claimed (tk ''b'') 4 closing) = running closing \<and>
   \<not> stop consumer0 \<and> \<not> stop (step (MainSelect (accept ''a'')) consumer0) \<and>
   ''a'' \<in> running_ids (step (MainClaimed 2) (step (MainSelect (accept ''a'')) consumer0))"
proof -
  have s: "stop closing" and r: "running_ids closing = {''a''}"
    by (simp_all add: closing_state running_ids_def)
  from stop_blocks_admission[of closing "[MainClaimed 4, MainSelect (accept ''c''), MainClaimed 6]"
      "tk ''b''" 4 DoClose] s r
  have 1: "stop (exec [MainClaimed 4, MainSelect (accept ''c''), MainClaimed 6] closing)"
    and 2: "running_ids (exec [MainClaimed 4, MainSelect (accept ''c''), MainClaimed 6] closing) \<subseteq> {''a''}"
    and 3: "running (claimed (tk ''b'') 4 closing) = running closing"
    by simp_all
  have 4: "\<not> stop consumer0" by (simp add: consumer0_def)
  have st: "step (MainSelect (accept ''a'')) consumer0 =
      \<lparr>running = [], stop = False, freeze = False, hwg = 0, handlers = [], stopping = [],
       mainloop = Claiming (tk ''a''),
       calls = [(MainLoop, BalCanClaim ''a''), (MainLoop, CoordClaim ''a'' True)]\<rparr>"
    by (simp add: step.simps consumer0_def run_select_def recv_task_def
      add_call_def Frozen_def Let_def accept_def NoDelay_def tk_def)
  have 5: "\<not> stop (step (MainSelect (accept ''a'')) consumer0)" by (simp add: st)
  have 6: "''a'' \<in> running_ids (step (MainClaimed 2) (step (MainSelect (accept ''a'')) consumer0))"
    unfolding st by (simp add: step.simps claimed_def Let_def running_ids_def tk_def newTask_def)
  from s r 1 2 3 4 5 6 show ?thesis by simp
qed

section \<open>Proofs: the handler goroutine\<close>

lemma hrun_cases:
  assumes tr: "traced c" and m: "(HandlerG i, HRun tid out) \<in> set (calls c)"
  shows "\<exists>pc. handler_at c i = Some (tid, pc) \<and>
           ((pc = Purged (done_of out) \<and> hcalls i c = [HRun tid out]) \<or>
            ((pc = Notified \<or> pc = Exited) \<and>
             hcalls i c = [HRun tid out, notify_call tid (done_of out)]))"
proof -
  from m have mem: "HRun tid out \<in> set (hcalls i c)" by (force simp: hcalls_def)
  show ?thesis
  proof (cases "handler_at c i")
    case None
    from traced_none[OF tr None] mem show ?thesis by simp
  next
    case (Some p)
    obtain t pc where p: "p = (t, pc)" by (cases p)
    from traced_some[OF tr Some[unfolded p]] have ok: "hcalls_ok t pc (hcalls i c)" .
    show ?thesis
    proof (cases pc)
      case Created
      with ok mem show ?thesis by simp
    next
      case InRun
      with ok mem show ?thesis by simp
    next
      case (Purged d)
      with ok obtain o' where "hcalls i c = [HRun t o']" "d = done_of o'" by auto
      with mem Some p Purged show ?thesis by auto
    next
      case Notified
      with ok obtain o' where "hcalls i c = [HRun t o', notify_call t (done_of o')]" by auto
      with mem Some p Notified show ?thesis by (auto simp: notify_call_def split: if_splits)
    next
      case Exited
      with ok obtain o' where "hcalls i c = [HRun t o', notify_call t (done_of o')]" by auto
      with mem Some p Exited show ?thesis by (auto simp: notify_call_def split: if_splits)
    qed
  qed
qed

lemma not_running_after_Run:
  assumes co: "coherent c" and hi: "handler_at c i = Some (tid, pc)" and pc: "pc \<noteq> InRun"
  shows "\<forall>k rt. map_of (running c) k = Some rt \<longrightarrow> h rt \<noteq> i"
proof (intro allI impI)
  fix k rt assume "map_of (running c) k = Some rt"
  from coherent_running[OF co this] have "handler_at c (h rt) = Some (k, InRun)" by simp
  with hi pc show "h rt \<noteq> i" by auto
qed

lemma return_step:
  assumes "handler_at c i = Some (tid, InRun)"
  shows "map_of (running (step (HandlerReturn i out) c)) tid = None \<and>
         handler_at (step (HandlerReturn i out) c) i = Some (tid, Purged (done_of out)) \<and>
         calls (step (HandlerReturn i out) c) = calls c @ [(HandlerG i, HRun tid out)]"
proof -
  let ?c1 = "c\<lparr>calls := calls c @ [(HandlerG i, HRun tid out)], running := AList.delete tid (running c)\<rparr>"
  have "handler_at ?c1 i = Some (tid, InRun)" using assms by simp
  from handler_at_set_hpc[OF this, of tid "Purged (done_of out)" i] show ?thesis
    unfolding step_HandlerReturn[OF assms] by (simp add: map_of_delete_at set_hpc_def)
qed

lemma notify_step:
  assumes "handler_at c i = Some (tid, Purged d)"
  shows "calls (step (HandlerNotify i) c) = calls c @ [(HandlerG i, notify_call tid d)] \<and>
         handler_at (step (HandlerNotify i) c) i = Some (tid, Notified)"
proof -
  have "handler_at (c\<lparr>calls := calls c @ [(HandlerG i, notify_call tid d)]\<rparr>) i = Some (tid, Purged d)"
    using assms by simp
  from handler_at_set_hpc[OF this, of tid Notified i] show ?thesis
    unfolding step_HandlerNotify[OF assms] by simp
qed

lemma exit_step:
  assumes "handler_at c i = Some (tid, Notified)"
  shows "handler_at (step (HandlerExit i) c) i = Some (tid, Exited) \<and>
         calls (step (HandlerExit i) c) = calls c"
proof -
  have "handler_at (c\<lparr>hwg := hwg c - 1\<rparr>) i = Some (tid, Notified)" using assms by simp
  from handler_at_set_hpc[OF this, of tid Exited i] show ?thesis
    unfolding step_HandlerExit[OF assms] by simp
qed

text \<open>
  Claim C2. In every state the consumer reaches, if the goroutine of handler \<open>i\<close> has
  returned from \<^verbatim>\<open>h.Run\<close> of task \<open>tid\<close> with the value \<open>b\<close>, then \<open>running\<close> holds no entry of
  that handler, and the goroutine either is about to call the coordinator, having made
  no call on it, or has made exactly one: \<^verbatim>\<open>Done(tid)\<close> if \<open>b\<close> is true, \<^verbatim>\<open>Release(tid)\<close> if
  it is false. Its next step makes that call, and the step after it ends the goroutine.
  The return of \<^verbatim>\<open>h.Run\<close> in a goroutine \<open>j\<close> that is inside it deletes the task of \<open>j\<close> from
  \<open>running\<close>.
\<close>

theorem handler_return_notifies:
  assumes "(HandlerG i, HRun tid (Returns b)) \<in> set (calls (exec as consumer0))"
  shows "(\<exists>pc. handler_at (exec as consumer0) i = Some (tid, pc) \<and>
            ((pc = Purged b \<and> hcalls i (exec as consumer0) = [HRun tid (Returns b)]) \<or>
             ((pc = Notified \<or> pc = Exited) \<and>
              hcalls i (exec as consumer0) =
                [HRun tid (Returns b), if b then CoordDone tid else CoordRelease tid]))) \<and>
         (\<forall>k rt. map_of (running (exec as consumer0)) k = Some rt \<longrightarrow> h rt \<noteq> i) \<and>
         (handler_at (exec as consumer0) i = Some (tid, Purged b) \<longrightarrow>
            calls (step (HandlerNotify i) (exec as consumer0)) =
              calls (exec as consumer0) @ [(HandlerG i, if b then CoordDone tid else CoordRelease tid)] \<and>
            handler_at (step (HandlerNotify i) (exec as consumer0)) i = Some (tid, Notified)) \<and>
         (handler_at (exec as consumer0) i = Some (tid, Notified) \<longrightarrow>
            handler_at (step (HandlerExit i) (exec as consumer0)) i = Some (tid, Exited)) \<and>
         (handler_at (exec as consumer0) j = Some (t, InRun) \<longrightarrow>
            map_of (running (step (HandlerReturn j (Returns d)) (exec as consumer0))) t = None \<and>
            handler_at (step (HandlerReturn j (Returns d)) (exec as consumer0)) j = Some (t, Purged d) \<and>
            calls (step (HandlerReturn j (Returns d)) (exec as consumer0)) =
              calls (exec as consumer0) @ [(HandlerG j, HRun t (Returns d))])"
proof -
  let ?c = "exec as consumer0"
  have co: "coherent ?c" by (rule coherent_exec[OF coherent_consumer0])
  have tr: "traced ?c" by (rule traced_exec[OF traced_consumer0])
  have 5: "handler_at ?c j = Some (t, InRun) \<longrightarrow>
            map_of (running (step (HandlerReturn j (Returns d)) ?c)) t = None \<and>
            handler_at (step (HandlerReturn j (Returns d)) ?c) j = Some (t, Purged d) \<and>
            calls (step (HandlerReturn j (Returns d)) ?c) = calls ?c @ [(HandlerG j, HRun t (Returns d))]"
    using return_step[of ?c j t "Returns d"] by (simp add: done_of_def)
  from hrun_cases[OF tr assms] obtain pc where
    hi: "handler_at ?c i = Some (tid, pc)" and
    cs: "(pc = Purged b \<and> hcalls i ?c = [HRun tid (Returns b)]) \<or>
         ((pc = Notified \<or> pc = Exited) \<and>
          hcalls i ?c = [HRun tid (Returns b), if b then CoordDone tid else CoordRelease tid])"
    by (auto simp: done_of_def notify_call_def)
  from cs have "pc \<noteq> InRun" by auto
  from not_running_after_Run[OF co hi this]
  have 2: "\<forall>k rt. map_of (running ?c) k = Some rt \<longrightarrow> h rt \<noteq> i" .
  have 3: "handler_at ?c i = Some (tid, Purged b) \<longrightarrow>
            calls (step (HandlerNotify i) ?c) =
              calls ?c @ [(HandlerG i, if b then CoordDone tid else CoordRelease tid)] \<and>
            handler_at (step (HandlerNotify i) ?c) i = Some (tid, Notified)"
    using notify_step[of ?c i tid b] by (simp add: notify_call_def)
  have 4: "handler_at ?c i = Some (tid, Notified) \<longrightarrow>
            handler_at (step (HandlerExit i) ?c) i = Some (tid, Exited)"
    using exit_step[of ?c i tid] by simp
  from hi cs 2 3 4 5 show ?thesis by blast
qed


lemma run_release_state:
  "exec run_release consumer0 =
     \<lparr>running = [], stop = False, freeze = False, hwg = 0, handlers = [(''a'', Exited)], stopping = [],
      mainloop = Selecting,
      calls = [(MainLoop, BalCanClaim ''a''), (MainLoop, CoordClaim ''a'' True),
               (HandlerG 0, HRun ''a'' (Returns False)), (HandlerG 0, CoordRelease ''a'')]\<rparr>"
  by (simp add: run_release_def consumer_defs)

lemma run_done_state:
  "exec run_done consumer0 =
     \<lparr>running = [], stop = False, freeze = False, hwg = 1, handlers = [(''a'', Notified)], stopping = [],
      mainloop = Selecting,
      calls = [(MainLoop, BalCanClaim ''a''), (MainLoop, CoordClaim ''a'' True),
               (HandlerG 0, HRun ''a'' (Returns True)), (HandlerG 0, CoordDone ''a'')]\<rparr>"
  by (simp add: run_done_def consumer_defs)


theorem handler_return_notifies_witness:
  "(HandlerG 0, HRun ''a'' (Returns False)) \<in> set (calls (exec run_release consumer0)) \<and>
   handler_at (exec run_release consumer0) 0 = Some (''a'', Exited) \<and>
   hcalls 0 (exec run_release consumer0) = [HRun ''a'' (Returns False), CoordRelease ''a''] \<and>
   running (exec run_release consumer0) = [] \<and>
   (HandlerG 0, HRun ''a'' (Returns True)) \<in> set (calls (exec run_done consumer0)) \<and>
   handler_at (exec run_done consumer0) 0 = Some (''a'', Notified) \<and>
   hcalls 0 (exec run_done consumer0) = [HRun ''a'' (Returns True), CoordDone ''a''] \<and>
   handler_at (step (HandlerExit 0) (exec run_done consumer0)) 0 = Some (''a'', Exited)"
proof -
  have m1: "(HandlerG 0, HRun ''a'' (Returns False)) \<in> set (calls (exec run_release consumer0))"
    by (simp add: run_release_state)
  have h1: "handler_at (exec run_release consumer0) 0 = Some (''a'', Exited)"
    by (simp add: run_release_state handler_at_def)
  have r1: "running (exec run_release consumer0) = []" by (simp add: run_release_state)
  from handler_return_notifies[OF m1] h1
  have c1: "hcalls 0 (exec run_release consumer0) = [HRun ''a'' (Returns False), CoordRelease ''a'']"
    by auto
  have m2: "(HandlerG 0, HRun ''a'' (Returns True)) \<in> set (calls (exec run_done consumer0))"
    by (simp add: run_done_state)
  have h2: "handler_at (exec run_done consumer0) 0 = Some (''a'', Notified)"
    by (simp add: run_done_state handler_at_def)
  from handler_return_notifies[OF m2] h2
  have c2: "hcalls 0 (exec run_done consumer0) = [HRun ''a'' (Returns True), CoordDone ''a'']"
    and e2: "handler_at (step (HandlerExit 0) (exec run_done consumer0)) 0 = Some (''a'', Exited)"
    by auto
  from m1 h1 c1 r1 m2 h2 c2 e2 show ?thesis by simp
qed













section \<open>Proofs: the frozen main loop\<close>

lemma calls_ext_refl [simp]: "calls_ext P c c"
  by (simp add: calls_ext_def)

lemma calls_ext_same: "calls c' = calls c \<Longrightarrow> calls_ext P c c'"
  by (simp add: calls_ext_def)

lemma calls_ext_trans:
  assumes "calls_ext P a b" and "calls_ext P b c"
  shows "calls_ext P a c"
proof -
  from assms(1) obtain n1 where n1: "calls b = calls a @ n1" "\<forall>x\<in>set n1. P x"
    by (auto simp: calls_ext_def)
  from assms(2) obtain n2 where n2: "calls c = calls b @ n2" "\<forall>x\<in>set n2. P x"
    by (auto simp: calls_ext_def)
  have "calls c = calls a @ (n1 @ n2)" using n1 n2 by simp
  moreover have "\<forall>x\<in>set (n1 @ n2). P x" using n1 n2 by auto
  ultimately show ?thesis unfolding calls_ext_def by blast
qed

lemma calls_ext_mono:
  assumes "calls_ext P a b" and "\<And>x. P x \<Longrightarrow> Q x"
  shows "calls_ext Q a b"
  using assms unfolding calls_ext_def by blast

lemma calls_ext_one: "P (who, x) \<Longrightarrow> calls_ext P c (c\<lparr>calls := calls c @ [(who, x)]\<rparr>)"
  by (simp add: calls_ext_def)

lemma calls_ext_mainloop [simp]: "calls_ext P c (c'\<lparr>mainloop := m\<rparr>) = calls_ext P c c'"
  by (simp add: calls_ext_def)

lemma stop_next_not_claiming:
  "\<forall>t. mainloop c \<noteq> Claiming t \<Longrightarrow> mainloop (stop_next c) \<noteq> Claiming t'"
  by (cases "mainloop c") (auto simp: stop_next_def split: list.splits)

lemma ext_run_stop: "calls_ext is_hstop c (run_stop k now c)"
  by (simp add: run_stop_def Let_def calls_ext_def is_hstop_def split: prod.splits)

lemma ext_balance: "calls_ext (\<lambda>x. x = (MainLoop, BalBalance)) c (balance rel c)"
  by (simp add: balance_def calls_ext_def)

lemma ext_shutdown: "calls_ext (\<lambda>x. x = (MainLoop, CoordClose)) c (shutdown c)"
  by (simp add: shutdown_def Let_def calls_ext_def)

lemma ext_handleCommand:
  "calls_ext (\<lambda>x. x = (MainLoop, BalBalance) \<and> Name cmd = cmdBalance) c (handleCommand cmd rel c)"
proof -
  let ?P = "\<lambda>x. x = (MainLoop, BalBalance) \<and> Name cmd = cmdBalance"
  have b: "Name cmd = cmdBalance \<Longrightarrow> calls_ext ?P c (balance rel c)"
    by (rule calls_ext_mono[OF ext_balance]) auto
  have s: "\<And>t. calls_ext ?P c (stopTask t c)" by (rule calls_ext_same) simp
  have f: "\<And>v. calls_ext ?P c (c\<lparr>freeze := v\<rparr>)" by (rule calls_ext_same) simp
  show ?thesis
    unfolding handleCommand_def using b s f
    by (auto split: option.splits param.splits)
qed

lemma handleCommand_not_claiming:
  "mainloop c = Selecting \<Longrightarrow> mainloop (handleCommand cmd rel c) \<noteq> Claiming t"
  by (auto simp: handleCommand_def split: option.splits param.splits)

lemma recv_task_freeze [simp]: "freeze (recv_task t ign can cl c) = freeze c"
  by (simp add: recv_task_def add_call_def Let_def)

lemma frozen_ok_run_select:
  assumes "mainloop c = Selecting"
  shows "frozen_ok (run_select ev c)"
proof (cases "Frozen c")
  case True
  then show ?thesis using assms
    by (auto simp: run_select_def frozen_ok_def handleCommand_not_claiming
        split: event.splits option.splits)
next
  case False
  then show ?thesis using assms
    by (auto simp: run_select_def frozen_ok_def Frozen_def handleCommand_not_claiming
        handleCommand_def split: event.splits option.splits param.splits)
qed

lemma claimed_freeze [simp]: "freeze (claimed t now c) = freeze c"
  by (cases "stop c \<or> map_of (running c) (ID t) \<noteq> None") (auto simp: claimed_drop claimed_admit)

lemma step_handler_frozen:
  "freeze (step (HandlerReturn i out) c) = freeze c \<and> mainloop (step (HandlerReturn i out) c) = mainloop c"
  "freeze (step (HandlerNotify i) c) = freeze c \<and> mainloop (step (HandlerNotify i) c) = mainloop c"
  "freeze (step (HandlerExit i) c) = freeze c \<and> mainloop (step (HandlerExit i) c) = mainloop c"
  by (auto simp: step.simps runTask_def Let_def split: option.splits prod.splits hpc.splits)

lemma frozen_ok_step:
  assumes "frozen_ok c"
  shows "frozen_ok (step a c)"
proof (cases a)
  case DoClose
  then show ?thesis using assms by (simp add: step_main close_def frozen_ok_def)
next
  case (MainSelect ev)
  then show ?thesis using assms frozen_ok_run_select[of c ev] by (simp add: step_main)
next
  case MainStopTask
  then show ?thesis using assms stop_next_not_claiming[of c] by (auto simp: step_main frozen_ok_def)
next
  case (StopRun k now)
  then show ?thesis using assms by (simp add: step_main frozen_ok_def)
next
  case (MainClaimed now)
  then show ?thesis using assms by (simp add: step_main frozen_ok_def split: mpc.splits)
next
  case MainWaitDone
  then show ?thesis using assms by (simp add: step_main frozen_ok_def)
next
  case (HandlerReturn i out)
  then show ?thesis using assms step_handler_frozen(1)[of i out c] by (simp add: frozen_ok_def)
next
  case (HandlerNotify i)
  then show ?thesis using assms step_handler_frozen(2)[of i c] by (simp add: frozen_ok_def)
next
  case (HandlerExit i)
  then show ?thesis using assms step_handler_frozen(3)[of i c] by (simp add: frozen_ok_def)
qed

lemma frozen_ok_exec: "frozen_ok c \<Longrightarrow> frozen_ok (exec as c)"
  by (induction as rule: rev_induct) (simp_all add: exec_snoc frozen_ok_step)

lemma frozen_ok_consumer0: "frozen_ok consumer0"
  by (simp add: frozen_ok_def consumer0_def)

lemma frozen_not_received:
  assumes "Frozen c"
  shows "step (MainSelect (RecvTask t ign can cl)) c = c"
    and "step (MainSelect (RecvBalance rel)) c = c"
  using assms by (simp_all add: step_main run_select_def)

lemma frozen_run_select_calls:
  assumes "Frozen c"
  shows "calls_ext (frozen_call (MainSelect ev)) c (run_select ev c)"
proof (cases ev)
  case RecvStop
  have "calls_ext (frozen_call (MainSelect ev)) c (shutdown c)"
    by (rule calls_ext_mono[OF ext_shutdown]) (auto simp: frozen_call_def)
  with RecvStop assms show ?thesis by (simp add: run_select_def)
next
  case (RecvBalance rel)
  with assms show ?thesis by (simp add: run_select_def)
next
  case (RecvTask t ign can cl)
  with assms show ?thesis by (simp add: run_select_def)
next
  case (RecvCmd co rel)
  show ?thesis
  proof (cases co)
    case None
    have "calls_ext (frozen_call (MainSelect ev)) c (shutdown c)"
      by (rule calls_ext_mono[OF ext_shutdown]) (auto simp: frozen_call_def)
    with RecvCmd None assms show ?thesis by (simp add: run_select_def)
  next
    case (Some cmd)
    have "calls_ext (frozen_call (MainSelect ev)) c (handleCommand cmd rel c)"
      by (rule calls_ext_mono[OF ext_handleCommand])
         (auto simp: frozen_call_def balance_command_def RecvCmd Some)
    with RecvCmd Some assms show ?thesis by (simp add: run_select_def)
  qed
qed

lemma frozen_step_calls:
  assumes "Frozen c"
  shows "calls_ext (frozen_call a) c (step a c)"
proof (cases a)
  case DoClose
  then show ?thesis by (simp add: step_main close_def calls_ext_same)
next
  case (MainSelect ev)
  then show ?thesis using frozen_run_select_calls[OF assms, of ev] by (simp add: step_main)
next
  case MainStopTask
  then show ?thesis by (simp add: step_main calls_ext_same)
next
  case (StopRun k now)
  have "calls_ext (frozen_call a) c (run_stop k now c)"
    by (rule calls_ext_mono[OF ext_run_stop]) (auto simp: frozen_call_def is_hstop_def)
  with StopRun show ?thesis by (simp add: step_main)
next
  case (MainClaimed now)
  then show ?thesis by (auto simp: step_main calls_ext_same split: mpc.splits)
next
  case MainWaitDone
  then show ?thesis by (simp add: step_main calls_ext_same)
next
  case (HandlerReturn i out)
  show ?thesis
  proof (cases "\<exists>tid. handler_at c i = Some (tid, InRun)")
    case True
    then obtain tid where hi: "handler_at c i = Some (tid, InRun)" by blast
    show ?thesis unfolding HandlerReturn step_HandlerReturn[OF hi]
      by (simp add: calls_ext_def frozen_call_def)
  next
    case False
    then show ?thesis using HandlerReturn by (simp add: step_HandlerReturn_idle)
  qed
next
  case (HandlerNotify i)
  show ?thesis
  proof (cases "\<exists>tid d. handler_at c i = Some (tid, Purged d)")
    case True
    then obtain tid d where hi: "handler_at c i = Some (tid, Purged d)" by blast
    show ?thesis unfolding HandlerNotify step_HandlerNotify[OF hi]
      by (simp add: calls_ext_def frozen_call_def notify_call_def)
  next
    case False
    then show ?thesis using HandlerNotify by (simp add: step_HandlerNotify_idle)
  qed
next
  case (HandlerExit i)
  show ?thesis
  proof (cases "\<exists>tid. handler_at c i = Some (tid, Notified)")
    case True
    then obtain tid where hi: "handler_at c i = Some (tid, Notified)" by blast
    show ?thesis unfolding HandlerExit step_HandlerExit[OF hi]
      by (simp add: calls_ext_def)
  next
    case False
    then show ?thesis using HandlerExit by (simp add: step_HandlerExit_idle)
  qed
qed

lemma frozen_step_ids:
  assumes "Frozen c" and "frozen_ok c"
  shows "running_ids (step a c) \<subseteq> running_ids c"
proof (cases a)
  case DoClose
  then show ?thesis by (simp add: step_main close_def)
next
  case (MainSelect ev)
  then show ?thesis using running_ids_quiet[OF quiet_run_select[of c ev]] by (simp add: step_main)
next
  case MainStopTask
  then show ?thesis using running_ids_quiet[OF quiet_stop_next[of c]] by (simp add: step_main)
next
  case (StopRun k now)
  then show ?thesis using running_ids_quiet[OF quiet_run_stop[of c k now]] by (simp add: step_main)
next
  case (MainClaimed now)
  then show ?thesis using assms by (auto simp: step_main frozen_ok_def Frozen_def split: mpc.splits)
next
  case MainWaitDone
  then show ?thesis by (simp add: step_main)
next
  case (HandlerReturn i out)
  then show ?thesis using step_handler_ids(1)[of i out c] by simp
next
  case (HandlerNotify i)
  then show ?thesis using step_handler_ids(2)[of i c] by simp
next
  case (HandlerExit i)
  then show ?thesis using step_handler_ids(3)[of i c] by simp
qed

text \<open>
  Claim C6, as amended. In every frozen state the consumer reaches, a task and a balance
  tick are not received: the state stays as it is. Whatever step is taken, no
  \<^verbatim>\<open>CanClaim\<close> and no \<^verbatim>\<open>Claim\<close> is called and no task ID is added to \<open>running\<close>; and
  \<^verbatim>\<open>c.bal.Balance()\<close> is called only when the main loop receives a command named
  \<^verbatim>\<open>cmdBalance\<close>.
\<close>

theorem frozen_main_loop:
  assumes "Frozen (exec as consumer0)"
  shows "step (MainSelect (RecvTask t ign can cl)) (exec as consumer0) = exec as consumer0 \<and>
         step (MainSelect (RecvBalance rel)) (exec as consumer0) = exec as consumer0 \<and>
         (\<exists>new. calls (step a (exec as consumer0)) = calls (exec as consumer0) @ new \<and>
                (\<forall>x\<in>set new. \<not> is_claiming (snd x)) \<and>
                (BalBalance \<in> snd ` set new \<longrightarrow>
                   (\<exists>cmd rel'. a = MainSelect (RecvCmd (Some cmd) rel') \<and>
                                     Name cmd = cmdBalance))) \<and>
         running_ids (step a (exec as consumer0)) \<subseteq> running_ids (exec as consumer0)"
proof -
  let ?c = "exec as consumer0"
  have fo: "frozen_ok ?c" by (rule frozen_ok_exec[OF frozen_ok_consumer0])
  from frozen_step_calls[OF assms, of a] obtain new where
    n: "calls (step a ?c) = calls ?c @ new" "\<forall>x\<in>set new. frozen_call a x"
    by (auto simp: calls_ext_def)
  have 3: "\<exists>new. calls (step a ?c) = calls ?c @ new \<and>
                (\<forall>x\<in>set new. \<not> is_claiming (snd x)) \<and>
                (BalBalance \<in> snd ` set new \<longrightarrow>
                   (\<exists>cmd rel'. a = MainSelect (RecvCmd (Some cmd) rel') \<and>
                                     Name cmd = cmdBalance))"
    apply (rule exI[of _ new])
    using n by (auto simp: frozen_call_def balance_command_def)
  from frozen_not_received[OF assms] 3 frozen_step_ids[OF assms fo, of a] show ?thesis by simp
qed

lemma run_frozen_state:
  "exec run_frozen consumer0 =
     \<lparr>running = [(''a'', \<lparr>task = tk ''a'', h = 0, started = 1, stopped = 0\<rparr>),
                 (''b'', \<lparr>task = tk ''b'', h = 1, started = 2, stopped = 0\<rparr>)],
      stop = False, freeze = True, hwg = 2, handlers = [(''a'', InRun), (''b'', InRun)], stopping = [],
      mainloop = Selecting,
      calls = [(MainLoop, BalCanClaim ''a''), (MainLoop, CoordClaim ''a'' True),
               (MainLoop, BalCanClaim ''b''), (MainLoop, CoordClaim ''b'' True)]\<rparr>"
  by (simp add: run_frozen_def freeze_cmd_def consumer_defs)

text \<open>
  Claim C6 as stated fails: a frozen consumer that receives the command \<^verbatim>\<open>run_balance\<close>
  calls \<^verbatim>\<open>c.bal.Balance()\<close> and stops the task it returns, and is frozen all the while.
\<close>

theorem frozen_balance_counterexample:
  "Frozen (exec run_frozen consumer0) \<and>
   calls (step (MainSelect (RecvCmd (Some balance_cmd) [''a''])) (exec run_frozen consumer0)) =
     calls (exec run_frozen consumer0) @ [(MainLoop, BalBalance)] \<and>
   Frozen (exec balance_frozen (exec run_frozen consumer0)) \<and>
   calls (exec balance_frozen (exec run_frozen consumer0)) =
     calls (exec run_frozen consumer0) @ [(MainLoop, BalBalance), (StopG, HStop ''a'')] \<and>
   map (\<lambda>x. stopped (snd x)) (running (exec balance_frozen (exec run_frozen consumer0))) = [3, 0]"
  unfolding run_frozen_state by (simp add: balance_frozen_def balance_cmd_def consumer_defs)

theorem frozen_main_loop_witness:
  "Frozen (exec run_frozen consumer0) \<and>
   step (MainSelect (accept ''c'')) (exec run_frozen consumer0) = exec run_frozen consumer0 \<and>
   step (MainSelect (RecvBalance [''a''])) (exec run_frozen consumer0) = exec run_frozen consumer0 \<and>
   running_ids (step (MainClaimed 7) (exec run_frozen consumer0)) \<subseteq> {''a'', ''b''}"
proof -
  have f: "Frozen (exec run_frozen consumer0)" by (simp add: run_frozen_state Frozen_def)
  have ids: "running_ids (exec run_frozen consumer0) = {''a'', ''b''}"
    by (auto simp: run_frozen_state running_ids_def)
  from frozen_main_loop[OF f, of "tk ''c''" False "(NoDelay, True)" True "[''a'']" "MainClaimed 7"] f ids
  show ?thesis by (simp add: accept_def)
qed

end
